theory Spec2Isabelle
  imports Main "HOL-Library.Word"
begin

section \<open>The shared state of the vectorscope\<close>

text \<open>
  Both source files (\<^verbatim>\<open>main.c\<close> and its older variant) keep three globals: the
  array \<^verbatim>\<open>vertexBuffer\<close> of \<^verbatim>\<open>VERTEX_BUFFER_SIZE\<close> points, the
  \<^verbatim>\<open>unsigned int cursor\<close> and the semaphore \<^verbatim>\<open>mutex\<close>. The array is a list,
  the cursor a natural number below \<open>2 ^ 32\<close> (unsigned arithmetic is written out with
  \<open>mod 2 ^ 32\<close>), and the semaphore is its counter. \<^verbatim>\<open>VERTEX_BUFFER_SIZE\<close> is a
  macro of the source ("can be adjusted for a particular use case"); every function below takes
  it as its first argument \<open>N\<close>, and the programs as written use the value 2048.
\<close>

record 'a ring =
  vertexBuffer :: "'a list"
  cursor :: nat
  mutex :: nat

definition VERTEX_BUFFER_SIZE :: nat where
  "VERTEX_BUFFER_SIZE = 2048"

definition INT_MAX :: nat where
  "INT_MAX = 2 ^ 31 - 1"

text \<open>
  What stops a C function from returning normally: \<^verbatim>\<open>sem_wait\<close> on a semaphore whose
  counter is zero never returns in a sequential run, an array is read or written outside its
  bounds, or an \<^verbatim>\<open>int\<close> loop counter is incremented past \<^verbatim>\<open>INT_MAX\<close>.
\<close>

datatype fault = Blocked | OutOfBounds | SignedOverflow

definition sem_init :: "nat \<Rightarrow> 'a ring \<Rightarrow> 'a ring" where
  "sem_init v st = st\<lparr>mutex := v\<rparr>"

definition sem_wait :: "'a ring \<Rightarrow> fault + 'a ring" where
  "sem_wait st = (if mutex st = 0 then Inl Blocked else Inr (st\<lparr>mutex := mutex st - 1\<rparr>))"

definition sem_post :: "'a ring \<Rightarrow> 'a ring" where
  "sem_post st = st\<lparr>mutex := mutex st + 1\<rparr>"

text \<open>
  The well-formed states: the array has its declared size, which is a positive \<^verbatim>\<open>int\<close>
  constant, and the cursor indexes it.
\<close>

definition ring_ok :: "nat \<Rightarrow> 'a ring \<Rightarrow> bool" where
  "ring_ok N st \<longleftrightarrow>
     0 < N \<and> N \<le> INT_MAX \<and> length (vertexBuffer st) = N \<and> cursor st < N"

subsection \<open>Appending one point\<close>

text \<open>
  The body of the loop of \<^verbatim>\<open>callback\<close>, the same in both variants:
  \<^verbatim>\<open>vertexBuffer[cursor] = p; cursor = (cursor + 1) % VERTEX_BUFFER_SIZE;\<close>
\<close>

definition append_point :: "nat \<Rightarrow> 'a \<Rightarrow> 'a ring \<Rightarrow> fault + 'a ring" where
  "append_point N p st =
     (if cursor st < length (vertexBuffer st)
      then Inr (st\<lparr>vertexBuffer := (vertexBuffer st)[cursor st := p],
                    cursor := ((cursor st + 1) mod 2 ^ 32) mod N\<rparr>)
      else Inl OutOfBounds)"

text \<open>A run of appends, in order, stopping at the first fault.\<close>

fun append_all :: "nat \<Rightarrow> 'a list \<Rightarrow> 'a ring \<Rightarrow> fault + 'a ring" where
  "append_all N [] st = Inr st"
| "append_all N (p # ps) st =
     (case append_point N p st of Inl e \<Rightarrow> Inl e | Inr st' \<Rightarrow> append_all N ps st')"

text \<open>
  The slots in the order the snapshot walk of \<^verbatim>\<open>DrawVertexBuffer\<close> visits them: from
  the cursor to the end of the array, then from the start of the array up to the cursor.
\<close>

definition walk_order :: "'a ring \<Rightarrow> 'a list" where
  "walk_order st = drop (cursor st) (vertexBuffer st) @ take (cursor st) (vertexBuffer st)"

section \<open>The C type float\<close>

text \<open>
  A \<^verbatim>\<open>float\<close> is an IEEE 754 binary32 value: a sign bit, a biased exponent field below
  255 and a fraction field of 23 bits, or an infinity, or a NaN. \<open>Finite s e f\<close> with
  \<open>e = 0\<close> is a zero or a subnormal number. Every finite value is a whole number of units
  of \<open>2 ^ -149\<close>, which \<open>ulps\<close> counts.

  The finite values and the infinities are their bit patterns: two of them are equal exactly
  when their 32 bits are. \<open>NaN\<close> is different: it stands for the whole class of NaN bit
  patterns, quiet or signalling, of either sign and of any payload. Which of them an operation
  returns is not fixed by the C standard and differs between processors, so the model does not
  say; \<open>x = NaN\<close> means no more than that \<open>x\<close> is a NaN, and nothing stated about a NaN
  below is a statement about its bits.
\<close>

datatype cfloat = Finite bool nat nat | Infinite bool | NaN

definition is_nan :: "cfloat \<Rightarrow> bool" where
  "is_nan x \<longleftrightarrow> x = NaN"

fun is_binary32 :: "cfloat \<Rightarrow> bool" where
  "is_binary32 (Finite s e f) = (e < 255 \<and> f < 2 ^ 23)"
| "is_binary32 (Infinite s) = True"
| "is_binary32 NaN = True"

definition ulps :: "nat \<Rightarrow> nat \<Rightarrow> nat" where
  "ulps e f = (if e = 0 then f else (2 ^ 23 + f) * 2 ^ (e - 1))"

definition signed_ulps :: "bool \<Rightarrow> nat \<Rightarrow> int" where
  "signed_ulps s n = (if s then - int n else int n)"

fun bitlen :: "nat \<Rightarrow> nat" where
  "bitlen n = (if n = 0 then 0 else Suc (bitlen (n div 2)))"

text \<open>
  \<open>round_binary32 s n u\<close> is the binary32 value nearest to the exact number
  \<open>(-1) ^ s * n * 2 ^ -(149 + u)\<close>, ties going to the even significand (the rounding mode
  C programs start in): \<open>d\<close> low bits of \<open>n\<close> are dropped so that 24 significant bits
  remain, or fewer in the subnormal range; a result beyond the largest finite value is an
  infinity.
\<close>

definition round_binary32 :: "bool \<Rightarrow> nat \<Rightarrow> nat \<Rightarrow> cfloat" where
  "round_binary32 s n u =
     (let d = max u (bitlen n - 24);
          q = n div 2 ^ d;
          r = n mod 2 ^ d;
          m = (if 2 ^ d < 2 * r \<or> (2 * r = 2 ^ d \<and> odd q) then q + 1 else q);
          m' = (if m = 2 ^ 24 then 2 ^ 23 else m);
          E = (if m = 2 ^ 24 then d - u + 1 else d - u)
      in if m' < 2 ^ 23 then Finite s 0 m'
         else if 254 \<le> E then Infinite s
         else Finite s (E + 1) (m' - 2 ^ 23))"

text \<open>The product \<^verbatim>\<open>a * b\<close> of two floats.\<close>

fun fmul :: "cfloat \<Rightarrow> cfloat \<Rightarrow> cfloat" where
  "fmul NaN b = NaN"
| "fmul a NaN = NaN"
| "fmul (Infinite s) (Infinite t) = Infinite (s \<noteq> t)"
| "fmul (Infinite s) (Finite t e f) = (if ulps e f = 0 then NaN else Infinite (s \<noteq> t))"
| "fmul (Finite s e f) (Infinite t) = (if ulps e f = 0 then NaN else Infinite (s \<noteq> t))"
| "fmul (Finite s e f) (Finite t e' f') =
     round_binary32 (s \<noteq> t) (ulps e f * ulps e' f') 149"

text \<open>
  The sum \<^verbatim>\<open>a + b\<close> of two floats. An exact zero sum is negative only when both operands
  are negative zeros.
\<close>

fun fadd :: "cfloat \<Rightarrow> cfloat \<Rightarrow> cfloat" where
  "fadd NaN b = NaN"
| "fadd a NaN = NaN"
| "fadd (Infinite s) (Infinite t) = (if s = t then Infinite s else NaN)"
| "fadd (Infinite s) (Finite t e f) = Infinite s"
| "fadd (Finite s e f) (Infinite t) = Infinite t"
| "fadd (Finite s e f) (Finite t e' f') =
     (let z = signed_ulps s (ulps e f) + signed_ulps t (ulps e' f')
      in if z = 0 then Finite (s \<and> t) 0 0
         else round_binary32 (z < 0) (nat \<bar>z\<bar>) 0)"

text \<open>The difference \<^verbatim>\<open>a - b\<close> is the sum of \<open>a\<close> and the negation of \<open>b\<close>.\<close>

fun fneg :: "cfloat \<Rightarrow> cfloat" where
  "fneg (Finite s e f) = Finite (\<not> s) e f"
| "fneg (Infinite s) = Infinite (\<not> s)"
| "fneg NaN = NaN"

definition fsub :: "cfloat \<Rightarrow> cfloat \<Rightarrow> cfloat" where
  "fsub a b = fadd a (fneg b)"

text \<open>The comparisons \<^verbatim>\<open>a < b\<close> and \<^verbatim>\<open>a == b\<close>: false whenever a NaN is involved.\<close>

fun fless :: "cfloat \<Rightarrow> cfloat \<Rightarrow> bool" where
  "fless NaN b = False"
| "fless a NaN = False"
| "fless (Infinite s) (Infinite t) = (s \<and> \<not> t)"
| "fless (Infinite s) (Finite t e f) = s"
| "fless (Finite s e f) (Infinite t) = (\<not> t)"
| "fless (Finite s e f) (Finite t e' f') = (signed_ulps s (ulps e f) < signed_ulps t (ulps e' f'))"

fun feq :: "cfloat \<Rightarrow> cfloat \<Rightarrow> bool" where
  "feq NaN b = False"
| "feq a NaN = False"
| "feq (Infinite s) (Infinite t) = (s = t)"
| "feq (Infinite s) (Finite t e f) = False"
| "feq (Finite s e f) (Infinite t) = False"
| "feq (Finite s e f) (Finite t e' f') = (signed_ulps s (ulps e f) = signed_ulps t (ulps e' f'))"

text \<open>\<^verbatim>\<open>fmin\<close> and \<^verbatim>\<open>fmax\<close> of \<^verbatim>\<open>math.h\<close>: a NaN argument yields the other one.\<close>

definition c_fmin :: "cfloat \<Rightarrow> cfloat \<Rightarrow> cfloat" where
  "c_fmin a b = (if a = NaN then b else if b = NaN then a else if fless b a then b else a)"

definition c_fmax :: "cfloat \<Rightarrow> cfloat \<Rightarrow> cfloat" where
  "c_fmax a b = (if a = NaN then b else if b = NaN then a else if fless a b then b else a)"

text \<open>The conversion of an \<^verbatim>\<open>int\<close> to \<^verbatim>\<open>float\<close>, and the division of \<^verbatim>\<open>int\<close>s.\<close>

definition float_of_int :: "int \<Rightarrow> cfloat" where
  "float_of_int i = round_binary32 (i < 0) (nat \<bar>i\<bar> * 2 ^ 149) 0"

definition c_div :: "int \<Rightarrow> int \<Rightarrow> int" where
  "c_div a b = sgn a * sgn b * (\<bar>a\<bar> div \<bar>b\<bar>)"

definition pos_zero :: cfloat where
  "pos_zero = Finite False 0 0"

definition neg_zero :: cfloat where
  "neg_zero = Finite True 0 0"

definition float_one :: cfloat where
  "float_one = Finite False 127 0"

section \<open>The current variant: main.c\<close>

datatype Vector2 = Vector2 (vec_x: cfloat) (vec_y: cfloat)

type_synonym byte = "8 word"

datatype Color = Color byte byte byte byte

definition WHITE :: Color where
  "WHITE = Color 255 255 255 255"

definition BLACK :: Color where
  "BLACK = Color 0 0 0 255"

definition WINDOW_WIDTH :: int where
  "WINDOW_WIDTH = 1024"

definition WINDOW_HEIGHT :: int where
  "WINDOW_HEIGHT = 1024"

definition LINE_WIDTH :: cfloat where
  "LINE_WIDTH = float_of_int 2"

text \<open>
  The calls the program makes to raylib, rlgl and the semaphore library that act on the
  outside world, in the order it makes them. (Queries such as \<^verbatim>\<open>IsKeyPressed\<close> are
  inputs, not calls of this list.)
\<close>

datatype call =
    InitAudioDevice
  | LoadMusicStream string
  | CloseAudioDevice
  | AttachAudioStreamProcessor
  | SetConfigFlags
  | InitWindow int int string
  | SetTargetFPS int
  | PlayMusicStream
  | ToggleFullscreen
  | SetWindowSize int int
  | ShowCursor
  | HideCursor
  | SeekMusicStream cfloat
  | UpdateMusicStream
  | BeginDrawing
  | ClearBackground Color
  | rlSetLineWidth cfloat
  | rlBegin_RL_LINES
  | rlColor4ub byte byte byte byte
  | rlVertex2f cfloat cfloat
  | rlEnd
  | DrawLineEx Vector2 Vector2 cfloat Color
  | EndDrawing
  | UnloadMusicStream
  | CloseWindow
  | sem_destroy

text \<open>
  Modelled from the spec: \<^verbatim>\<open>Vector2Scale\<close> and \<^verbatim>\<open>Vector2Add\<close> are declared in
  \<^verbatim>\<open>raymath.h\<close>, which is not among the source files. The spec gives their
  composition as \<^verbatim>\<open>pixel = point * scale + offset\<close>: the first multiplies both
  coordinates by the scale, the second adds two points coordinate by coordinate.
\<close>

fun Vector2Scale :: "Vector2 \<Rightarrow> cfloat \<Rightarrow> Vector2" where
  "Vector2Scale (Vector2 x y) scale = Vector2 (fmul x scale) (fmul y scale)"

fun Vector2Add :: "Vector2 \<Rightarrow> Vector2 \<Rightarrow> Vector2" where
  "Vector2Add (Vector2 x1 y1) (Vector2 x2 y2) = Vector2 (fadd x1 x2) (fadd y1 y2)"

subsection \<open>callback\<close>

text \<open>
  \<^verbatim>\<open>Vector2* frameptr = (Vector2*) buffer\<close>: the buffer of interleaved floats is read as
  an array of points, \<^verbatim>\<open>frameptr[i]\<close> being the floats \<open>2 * i\<close> and \<open>2 * i + 1\<close>.
\<close>

definition frame_at :: "cfloat list \<Rightarrow> nat \<Rightarrow> fault + Vector2" where
  "frame_at buffer i =
     (if 2 * i + 1 < length buffer
      then Inr (Vector2 (buffer ! (2 * i)) (buffer ! (2 * i + 1)))
      else Inl OutOfBounds)"

text \<open>
  \<^verbatim>\<open>for (int i = 0; i < frames; i++) { vertexBuffer[cursor] = frameptr[i]; ... }\<close>
  The counter is an \<^verbatim>\<open>int\<close>, compared with the \<^verbatim>\<open>unsigned int frames\<close>.
\<close>

function callback_loop ::
  "nat \<Rightarrow> cfloat list \<Rightarrow> nat \<Rightarrow> nat \<Rightarrow> Vector2 ring \<Rightarrow> fault + Vector2 ring" where
  "callback_loop N buffer frames i st =
     (if i < frames then
        (case frame_at buffer i of
           Inl e \<Rightarrow> Inl e
         | Inr p \<Rightarrow>
            (case append_point N p st of
               Inl e \<Rightarrow> Inl e
             | Inr st' \<Rightarrow>
                 if i = INT_MAX then Inl SignedOverflow
                 else callback_loop N buffer frames (i + 1) st'))
      else Inr st)"
  by pat_completeness auto
termination
  by (relation "measure (\<lambda>(N, buffer, frames, i, st). frames - i)") auto

definition callback :: "nat \<Rightarrow> cfloat list \<Rightarrow> nat \<Rightarrow> Vector2 ring \<Rightarrow> fault + Vector2 ring" where
  "callback N buffer frames st =
     (case sem_wait st of
        Inl e \<Rightarrow> Inl e
      | Inr s1 \<Rightarrow>
         (case callback_loop N buffer frames 0 s1 of
            Inl e \<Rightarrow> Inl e
          | Inr s2 \<Rightarrow> Inr (sem_post s2)))"

subsection \<open>DrawVertexBuffer\<close>

text \<open>
  The two statements applied to \<^verbatim>\<open>begin\<close> (lines 52 and 53) and to every
  \<^verbatim>\<open>end\<close> (lines 60 and 61).
\<close>

definition to_pixel :: "Vector2 \<Rightarrow> cfloat \<Rightarrow> Vector2 \<Rightarrow> Vector2" where
  "to_pixel drawOffset drawScale p = Vector2Add (Vector2Scale p drawScale) drawOffset"

text \<open>
  \<^verbatim>\<open>for (int i = 1; i < VERTEX_BUFFER_SIZE; i++)\<close>: the index
  \<^verbatim>\<open>(cursor + i) % VERTEX_BUFFER_SIZE\<close> is computed in \<^verbatim>\<open>unsigned int\<close>.
\<close>

function draw_loop ::
  "nat \<Rightarrow> Vector2 \<Rightarrow> cfloat \<Rightarrow> Vector2 ring \<Rightarrow> nat \<Rightarrow> Vector2 \<Rightarrow> call list \<Rightarrow> fault + call list" where
  "draw_loop N drawOffset drawScale st i begin_pt out =
     (if i < N then
        (let k = ((cursor st + i) mod 2 ^ 32) mod N in
         if k < length (vertexBuffer st) then
           (let end_pt = to_pixel drawOffset drawScale (vertexBuffer st ! k) in
            draw_loop N drawOffset drawScale st (i + 1) end_pt
              (out @ [rlVertex2f (vec_x begin_pt) (vec_y begin_pt),
                      rlVertex2f (vec_x end_pt) (vec_y end_pt)]))
         else Inl OutOfBounds)
      else Inr out)"
  by pat_completeness auto
termination
  by (relation "measure (\<lambda>(N, drawOffset, drawScale, st, i, begin_pt, out). N - i)") auto

definition DrawVertexBuffer ::
  "nat \<Rightarrow> Vector2 \<Rightarrow> cfloat \<Rightarrow> cfloat \<Rightarrow> Color \<Rightarrow> Vector2 ring
     \<Rightarrow> fault + (Vector2 ring \<times> call list)" where
  "DrawVertexBuffer N drawOffset drawScale lineWidth color st =
     (case sem_wait st of
        Inl e \<Rightarrow> Inl e
      | Inr s1 \<Rightarrow>
         if cursor s1 < length (vertexBuffer s1) then
           (let begin_pt = to_pixel drawOffset drawScale (vertexBuffer s1 ! cursor s1) in
            case color of Color r g b a \<Rightarrow>
              (case draw_loop N drawOffset drawScale s1 1 begin_pt
                      [rlSetLineWidth lineWidth, rlBegin_RL_LINES, rlColor4ub r g b a] of
                 Inl e \<Rightarrow> Inl e
               | Inr out \<Rightarrow> Inr (sem_post s1, out @ [rlEnd])))
         else Inl OutOfBounds)"

text \<open>
  What the renderer draws for a sequence of calls: in the mode \<^verbatim>\<open>RL_LINES\<close> every two
  vertices in a row are the two ends of one line segment.
\<close>

fun vertices :: "call list \<Rightarrow> Vector2 list" where
  "vertices [] = []"
| "vertices (rlVertex2f x y # cs) = Vector2 x y # vertices cs"
| "vertices (c # cs) = vertices cs"

fun line_pairs :: "'a list \<Rightarrow> ('a \<times> 'a) list" where
  "line_pairs (a # b # rest) = (a, b) # line_pairs rest"
| "line_pairs rest = []"

definition segments :: "call list \<Rightarrow> (Vector2 \<times> Vector2) list" where
  "segments cs = line_pairs (vertices cs)"

section \<open>The older variant\<close>

definition WINDOW_SIZE :: int where
  "WINDOW_SIZE = 1024"

text \<open>
  The loop of its \<^verbatim>\<open>callback\<close> reads the buffer as floats and stores pixel positions:
  \<^verbatim>\<open>Vector2 pos = { WINDOW_SIZE / 2, WINDOW_SIZE / 2 };\<close>
  \<^verbatim>\<open>pos.x += WINDOW_SIZE / 2 * frameptr[(2 * i) + 0];\<close>
  \<^verbatim>\<open>pos.y += WINDOW_SIZE / 2 * frameptr[(2 * i) + 1];\<close>
  The index \<^verbatim>\<open>(2 * i) + 1\<close> is computed in \<^verbatim>\<open>int\<close>.
\<close>

definition pos_of :: "cfloat \<Rightarrow> cfloat \<Rightarrow> Vector2" where
  "pos_of l r =
     Vector2 (fadd (float_of_int (c_div WINDOW_SIZE 2)) (fmul (float_of_int (c_div WINDOW_SIZE 2)) l))
             (fadd (float_of_int (c_div WINDOW_SIZE 2)) (fmul (float_of_int (c_div WINDOW_SIZE 2)) r))"

function callback_loop_v1 ::
  "nat \<Rightarrow> cfloat list \<Rightarrow> nat \<Rightarrow> nat \<Rightarrow> Vector2 ring \<Rightarrow> fault + Vector2 ring" where
  "callback_loop_v1 N buffer frames i st =
     (if i < frames then
        (if INT_MAX < 2 * i + 1 then Inl SignedOverflow
         else if length buffer \<le> 2 * i + 1 then Inl OutOfBounds
         else
           (case append_point N (pos_of (buffer ! (2 * i)) (buffer ! (2 * i + 1))) st of
              Inl e \<Rightarrow> Inl e
            | Inr st' \<Rightarrow> callback_loop_v1 N buffer frames (i + 1) st'))
      else Inr st)"
  by pat_completeness auto
termination
  by (relation "measure (\<lambda>(N, buffer, frames, i, st). frames - i)") auto

definition callback_v1 :: "nat \<Rightarrow> cfloat list \<Rightarrow> nat \<Rightarrow> Vector2 ring \<Rightarrow> fault + Vector2 ring" where
  "callback_v1 N buffer frames st =
     (case sem_wait st of
        Inl e \<Rightarrow> Inl e
      | Inr s1 \<Rightarrow>
         (case callback_loop_v1 N buffer frames 0 s1 of
            Inl e \<Rightarrow> Inl e
          | Inr s2 \<Rightarrow> Inr (sem_post s2)))"

function draw_loop_v1 ::
  "nat \<Rightarrow> Vector2 ring \<Rightarrow> nat \<Rightarrow> Vector2 \<Rightarrow> call list \<Rightarrow> fault + call list" where
  "draw_loop_v1 N st i begin_pt out =
     (if i < N then
        (let k = ((cursor st + i) mod 2 ^ 32) mod N in
         if k < length (vertexBuffer st) then
           (let end_pt = vertexBuffer st ! k in
            draw_loop_v1 N st (i + 1) end_pt (out @ [DrawLineEx begin_pt end_pt LINE_WIDTH WHITE]))
         else Inl OutOfBounds)
      else Inr out)"
  by pat_completeness auto
termination
  by (relation "measure (\<lambda>(N, st, i, begin_pt, out). N - i)") auto

definition DrawVertexBuffer_v1 :: "nat \<Rightarrow> Vector2 ring \<Rightarrow> fault + (Vector2 ring \<times> call list)" where
  "DrawVertexBuffer_v1 N st =
     (case sem_wait st of
        Inl e \<Rightarrow> Inl e
      | Inr s1 \<Rightarrow>
         if cursor s1 < length (vertexBuffer s1) then
           (case draw_loop_v1 N s1 1 (vertexBuffer s1 ! cursor s1) [] of
              Inl e \<Rightarrow> Inl e
            | Inr out \<Rightarrow> Inr (sem_post s1, out))
         else Inl OutOfBounds)"

fun segments_v1 :: "call list \<Rightarrow> (Vector2 \<times> Vector2) list" where
  "segments_v1 [] = []"
| "segments_v1 (DrawLineEx b e w c # cs) = (b, e) # segments_v1 cs"
| "segments_v1 (c # cs) = segments_v1 cs"

section \<open>main\<close>

text \<open>
  The globals as the program starts: \<^verbatim>\<open>vertexBuffer[VERTEX_BUFFER_SIZE] = { 0 }\<close>,
  \<^verbatim>\<open>cursor = 0\<close>, and a semaphore that \<^verbatim>\<open>main\<close> has not yet initialised.
\<close>

definition globals :: "nat \<Rightarrow> Vector2 ring" where
  "globals N = \<lparr>vertexBuffer = replicate N (Vector2 pos_zero pos_zero), cursor = 0, mutex = 0\<rparr>"

text \<open>
  What the outside world answers during one pass of the main loop, and the batches the audio
  thread delivers to \<^verbatim>\<open>callback\<close> before that pass draws (the semaphore puts every
  batch wholly before or wholly after a draw).
\<close>

record tick =
  audio :: "(cfloat list \<times> nat) list"
  WindowShouldClose :: bool
  IsMusicStreamPlaying :: bool
  KEY_F :: bool
  KEY_RIGHT :: bool
  KEY_LEFT :: bool
  IsWindowFullscreen :: bool
  GetMusicTimeLength :: cfloat
  GetMusicTimePlayed :: cfloat

record world =
  stream_buffer_null :: bool
  GetMonitorWidth :: int
  GetMonitorHeight :: int
  ticks :: "tick list"

fun deliver :: "nat \<Rightarrow> (cfloat list \<times> nat) list \<Rightarrow> Vector2 ring \<Rightarrow> fault + Vector2 ring" where
  "deliver N [] st = Inr st"
| "deliver N ((buffer, frames) # bs) st =
     (case callback N buffer frames st of Inl e \<Rightarrow> Inl e | Inr st' \<Rightarrow> deliver N bs st')"

text \<open>The fullscreen toggle of the loop: the new window size and the calls made.\<close>

definition toggle_fullscreen :: "int \<Rightarrow> int \<Rightarrow> tick \<Rightarrow> int \<times> int \<Rightarrow> (int \<times> int) \<times> call list" where
  "toggle_fullscreen monitorWidth monitorHeight t wh =
     (if KEY_F t then
        (if IsWindowFullscreen t
         then ((WINDOW_WIDTH, WINDOW_HEIGHT),
               [ToggleFullscreen, SetWindowSize WINDOW_WIDTH WINDOW_HEIGHT, ShowCursor])
         else ((monitorWidth, monitorHeight),
               [ToggleFullscreen, SetWindowSize monitorWidth monitorHeight, HideCursor]))
      else (wh, []))"

text \<open>Seeking with the arrow keys, by \<^verbatim>\<open>skipSize = 5.f\<close> seconds.\<close>

definition seek_calls :: "tick \<Rightarrow> call list" where
  "seek_calls t =
     (if KEY_RIGHT t
      then [SeekMusicStream (c_fmin (fadd (GetMusicTimePlayed t) (float_of_int 5)) (GetMusicTimeLength t))]
      else [])
     @ (if KEY_LEFT t
        then [SeekMusicStream (c_fmax (fsub (GetMusicTimePlayed t) (float_of_int 5)) pos_zero)]
        else [])"

text \<open>
  \<^verbatim>\<open>Vector2 drawOffset = { windowWidth/2, windowHeight/2 }; float drawScale = windowHeight/2;\<close>
\<close>

definition drawOffset_of :: "int \<Rightarrow> int \<Rightarrow> Vector2" where
  "drawOffset_of windowWidth windowHeight =
     Vector2 (float_of_int (c_div windowWidth 2)) (float_of_int (c_div windowHeight 2))"

definition drawScale_of :: "int \<Rightarrow> cfloat" where
  "drawScale_of windowHeight = float_of_int (c_div windowHeight 2)"

text \<open>
  The loop \<^verbatim>\<open>while (!WindowShouldClose() && IsMusicStreamPlaying(music))\<close>, one pass for
  each answer of the outside world. \<open>None\<close>: the answers ran out before the loop ended.
\<close>

fun main_loop ::
  "nat \<Rightarrow> int \<Rightarrow> int \<Rightarrow> tick list \<Rightarrow> int \<times> int \<Rightarrow> Vector2 ring \<Rightarrow> call list
     \<Rightarrow> (fault + call list) option" where
  "main_loop N monitorWidth monitorHeight [] wh st trace = None"
| "main_loop N monitorWidth monitorHeight (t # ts) wh st trace =
     (case deliver N (audio t) st of
        Inl e \<Rightarrow> Some (Inl e)
      | Inr st1 \<Rightarrow>
         if WindowShouldClose t \<or> \<not> IsMusicStreamPlaying t then Some (Inr trace)
         else
           (case toggle_fullscreen monitorWidth monitorHeight t wh of
              ((windowWidth, windowHeight), toggled) \<Rightarrow>
                (case DrawVertexBuffer N (drawOffset_of windowWidth windowHeight)
                        (drawScale_of windowHeight) LINE_WIDTH WHITE st1 of
                   Inl e \<Rightarrow> Some (Inl e)
                 | Inr (st2, drawn) \<Rightarrow>
                     main_loop N monitorWidth monitorHeight ts (windowWidth, windowHeight) st2
                       (trace @ toggled @ seek_calls t @ [UpdateMusicStream, BeginDrawing,
                          ClearBackground BLACK] @ drawn @ [EndDrawing]))))"

text \<open>
  \<^verbatim>\<open>main\<close>: the exit status and the calls made, or the fault that stopped the program.
\<close>

definition main :: "int \<Rightarrow> string list \<Rightarrow> world \<Rightarrow> (fault + int \<times> call list) option" where
  "main argc argv w =
     (if argc < 2 then Some (Inr (0, []))
      else if length argv \<le> 1 then Some (Inl OutOfBounds)
      else if stream_buffer_null w
        then Some (Inr (0, [InitAudioDevice, LoadMusicStream (argv ! 1), CloseAudioDevice]))
      else
        (case main_loop VERTEX_BUFFER_SIZE (GetMonitorWidth w) (GetMonitorHeight w) (ticks w)
                (WINDOW_WIDTH, WINDOW_HEIGHT) (sem_init 1 (globals VERTEX_BUFFER_SIZE))
                [InitAudioDevice, LoadMusicStream (argv ! 1), AttachAudioStreamProcessor,
                 SetConfigFlags, InitWindow WINDOW_WIDTH WINDOW_HEIGHT [], SetTargetFPS 120,
                 PlayMusicStream] of
           None \<Rightarrow> None
         | Some (Inl e) \<Rightarrow> Some (Inl e)
         | Some (Inr trace) \<Rightarrow>
             Some (Inr (0, trace @ [UnloadMusicStream, CloseWindow, sem_destroy]))))"

section \<open>Notions the properties are stated with\<close>

text \<open>
  The points that the stereo frames \<open>0, \<dots>, frames - 1\<close> of an interleaved buffer stand for:
  the left channel is the x coordinate, the right channel the y coordinate.
\<close>

definition frames_of :: "cfloat list \<Rightarrow> nat \<Rightarrow> Vector2 list" where
  "frames_of buffer frames =
     map (\<lambda>i. Vector2 (buffer ! (2 * i)) (buffer ! (2 * i + 1))) [0..<frames]"

text \<open>The line segments of the polyline through a list of points.\<close>

definition polyline :: "'a list \<Rightarrow> ('a \<times> 'a) list" where
  "polyline pts = zip pts (tl pts)"

text \<open>
  The batches that the audio thread delivers, handed to the \<^verbatim>\<open>callback\<close> of the older
  variant one after the other.
\<close>

fun deliver_v1 :: "nat \<Rightarrow> (cfloat list \<times> nat) list \<Rightarrow> Vector2 ring \<Rightarrow> fault + Vector2 ring" where
  "deliver_v1 N [] st = Inr st"
| "deliver_v1 N ((buffer, frames) # bs) st =
     (case callback_v1 N buffer frames st of Inl e \<Rightarrow> Inl e | Inr st' \<Rightarrow> deliver_v1 N bs st')"

text \<open>
  The line segments a variant draws in a snapshot taken after it has ingested the batches
  \<open>bs\<close>, starting from the zero-initialised globals and the semaphore initialised by
  \<^verbatim>\<open>main\<close>: the current variant in a window of the given width and height, the older
  variant in its window of fixed size.
\<close>

definition picture ::
  "nat \<Rightarrow> int \<Rightarrow> int \<Rightarrow> (cfloat list \<times> nat) list \<Rightarrow> fault + (Vector2 \<times> Vector2) list" where
  "picture N windowWidth windowHeight bs =
     (case deliver N bs (sem_init 1 (globals N)) of
        Inl e \<Rightarrow> Inl e
      | Inr st \<Rightarrow>
         (case DrawVertexBuffer N (drawOffset_of windowWidth windowHeight)
                 (drawScale_of windowHeight) LINE_WIDTH WHITE st of
            Inl e \<Rightarrow> Inl e
          | Inr (st', out) \<Rightarrow> Inr (segments out)))"

definition picture_v1 :: "nat \<Rightarrow> (cfloat list \<times> nat) list \<Rightarrow> fault + (Vector2 \<times> Vector2) list" where
  "picture_v1 N bs =
     (case deliver_v1 N bs (sem_init 1 (globals N)) of
        Inl e \<Rightarrow> Inl e
      | Inr st \<Rightarrow>
         (case DrawVertexBuffer_v1 N st of
            Inl e \<Rightarrow> Inl e
          | Inr (st', out) \<Rightarrow> Inr (segments_v1 out)))"

text \<open>The loops are unfolded by hand, one pass at a time.\<close>

declare callback_loop.simps [simp del] draw_loop.simps [simp del]
  callback_loop_v1.simps [simp del] draw_loop_v1.simps [simp del] bitlen.simps [simp del]

section \<open>The two threads\<close>

text \<open>
  The audio thread runs \<^verbatim>\<open>callback\<close>, the display thread runs
  \<^verbatim>\<open>DrawVertexBuffer\<close>, and their statements interleave in any order. Each thread is
  a program counter with its local variables; one step of a thread is one statement of its
  function: taking the semaphore, one store to the array, one update of the cursor, one read
  of a slot with the two vertices it emits, releasing the semaphore. A step that cannot be
  taken (\<^verbatim>\<open>sem_wait\<close> on a taken semaphore, an access out of bounds, a counter past
  \<^verbatim>\<open>INT_MAX\<close>) is \<open>None\<close>: the thread waits, or the program has no defined
  behaviour.
\<close>

datatype audio_pc =
    Audio_idle
  | Audio_test "cfloat list" nat nat
  | Audio_stored "cfloat list" nat nat

datatype display_pc =
    Display_idle
  | Display_entered Vector2 cfloat cfloat Color
  | Display_loop Vector2 cfloat cfloat Color nat Vector2 "call list"

text \<open>
  One finished call of \<^verbatim>\<open>DrawVertexBuffer\<close>: its arguments, the ring as it was when
  the call took the semaphore, and the calls it made to the renderer.
\<close>

record walk =
  at_offset :: Vector2
  at_scale :: cfloat
  at_width :: cfloat
  at_color :: Color
  snapshot :: "Vector2 ring"
  drawn :: "call list"

text \<open>
  The state of the program: the shared globals and the two threads. The last four fields are
  history: no step reads them. \<open>completed\<close> lists the points whose append has finished,
  \<open>acquired\<close> and \<open>seen\<close> are the ring and \<open>completed\<close> as they were when the display
  thread last took the semaphore, \<open>walks\<close> the finished calls of
  \<^verbatim>\<open>DrawVertexBuffer\<close>.
\<close>

record sys =
  shared :: "Vector2 ring"
  audio_thread :: audio_pc
  display_thread :: display_pc
  completed :: "Vector2 list"
  acquired :: "Vector2 ring"
  seen :: "Vector2 list"
  walks :: "walk list"

datatype move =
    Audio_call "cfloat list" nat
  | Audio_step
  | Display_call Vector2 cfloat cfloat Color
  | Display_step

definition audio_call :: "cfloat list \<Rightarrow> nat \<Rightarrow> sys \<Rightarrow> sys option" where
  "audio_call buffer frames s =
     (case audio_thread s of
        Audio_idle \<Rightarrow>
          (case sem_wait (shared s) of
             Inl e \<Rightarrow> None
           | Inr r \<Rightarrow> Some (s\<lparr>shared := r, audio_thread := Audio_test buffer frames 0\<rparr>))
      | Audio_test b f i \<Rightarrow> None
      | Audio_stored b f i \<Rightarrow> None)"

definition audio_step :: "nat \<Rightarrow> sys \<Rightarrow> sys option" where
  "audio_step N s =
     (case audio_thread s of
        Audio_idle \<Rightarrow> None
      | Audio_test buffer frames i \<Rightarrow>
          if i < frames then
            (case frame_at buffer i of
               Inl e \<Rightarrow> None
             | Inr p \<Rightarrow>
                 if cursor (shared s) < length (vertexBuffer (shared s))
                 then Some (s\<lparr>shared := (shared s)
                                 \<lparr>vertexBuffer := (vertexBuffer (shared s))[cursor (shared s) := p]\<rparr>,
                               audio_thread := Audio_stored buffer frames i\<rparr>)
                 else None)
          else Some (s\<lparr>shared := sem_post (shared s), audio_thread := Audio_idle\<rparr>)
      | Audio_stored buffer frames i \<Rightarrow>
          (case frame_at buffer i of
             Inl e \<Rightarrow> None
           | Inr p \<Rightarrow>
               if i = INT_MAX then None
               else Some (s\<lparr>shared := (shared s)
                               \<lparr>cursor := ((cursor (shared s) + 1) mod 2 ^ 32) mod N\<rparr>,
                             audio_thread := Audio_test buffer frames (i + 1),
                             completed := completed s @ [p]\<rparr>)))"

definition display_call :: "Vector2 \<Rightarrow> cfloat \<Rightarrow> cfloat \<Rightarrow> Color \<Rightarrow> sys \<Rightarrow> sys option" where
  "display_call drawOffset drawScale lineWidth color s =
     (case display_thread s of
        Display_idle \<Rightarrow>
          (case sem_wait (shared s) of
             Inl e \<Rightarrow> None
           | Inr r \<Rightarrow>
               Some (s\<lparr>shared := r,
                       display_thread := Display_entered drawOffset drawScale lineWidth color,
                       acquired := shared s, seen := completed s\<rparr>))
      | Display_entered off sc lw col \<Rightarrow> None
      | Display_loop off sc lw col i b out \<Rightarrow> None)"

definition display_step :: "nat \<Rightarrow> sys \<Rightarrow> sys option" where
  "display_step N s =
     (case display_thread s of
        Display_idle \<Rightarrow> None
      | Display_entered drawOffset drawScale lineWidth color \<Rightarrow>
          if cursor (shared s) < length (vertexBuffer (shared s)) then
            (case color of Color r g b a \<Rightarrow>
               Some (s\<lparr>display_thread :=
                 Display_loop drawOffset drawScale lineWidth color 1
                   (to_pixel drawOffset drawScale (vertexBuffer (shared s) ! cursor (shared s)))
                   [rlSetLineWidth lineWidth, rlBegin_RL_LINES, rlColor4ub r g b a]\<rparr>))
          else None
      | Display_loop drawOffset drawScale lineWidth color i begin_pt out \<Rightarrow>
          if i < N then
            (let k = ((cursor (shared s) + i) mod 2 ^ 32) mod N in
             if k < length (vertexBuffer (shared s)) then
               (let end_pt = to_pixel drawOffset drawScale (vertexBuffer (shared s) ! k) in
                Some (s\<lparr>display_thread :=
                  Display_loop drawOffset drawScale lineWidth color (i + 1) end_pt
                    (out @ [rlVertex2f (vec_x begin_pt) (vec_y begin_pt),
                            rlVertex2f (vec_x end_pt) (vec_y end_pt)])\<rparr>))
             else None)
          else
            Some (s\<lparr>shared := sem_post (shared s), display_thread := Display_idle,
                    walks := walks s @
                      [\<lparr>at_offset = drawOffset, at_scale = drawScale, at_width = lineWidth,
                        at_color = color, snapshot = acquired s, drawn = out @ [rlEnd]\<rparr>]\<rparr>))"

fun step :: "nat \<Rightarrow> move \<Rightarrow> sys \<Rightarrow> sys option" where
  "step N (Audio_call buffer frames) s = audio_call buffer frames s"
| "step N Audio_step s = audio_step N s"
| "step N (Display_call drawOffset drawScale lineWidth color) s =
     display_call drawOffset drawScale lineWidth color s"
| "step N Display_step s = display_step N s"

text \<open>A run: the moves of a schedule, one after the other, from a given state.\<close>

fun run :: "nat \<Rightarrow> move list \<Rightarrow> sys \<Rightarrow> sys option" where
  "run N [] s = Some s"
| "run N (m # ms) s = (case step N m s of None \<Rightarrow> None | Some s' \<Rightarrow> run N ms s')"

text \<open>The program as \<^verbatim>\<open>main\<close> has set it up: zeroed globals, the semaphore free.\<close>

definition boot :: "nat \<Rightarrow> sys" where
  "boot N =
     \<lparr>shared = sem_init 1 (globals N), audio_thread = Audio_idle, display_thread = Display_idle,
      completed = [], acquired = sem_init 1 (globals N), seen = [], walks = []\<rparr>"

text \<open>
  What holds in every state the two threads can reach. The semaphore is taken exactly while
  one thread is inside its function, and never by both.
\<close>

definition unlocked :: "Vector2 ring \<Rightarrow> Vector2 ring" where
  "unlocked r = r\<lparr>mutex := 1\<rparr>"

definition lock_inv :: "nat \<Rightarrow> sys \<Rightarrow> bool" where
  "lock_inv N s \<longleftrightarrow>
     ring_ok N (shared s)
     \<and> (audio_thread s = Audio_idle \<or> display_thread s = Display_idle)
     \<and> mutex (shared s) =
         (if audio_thread s = Audio_idle \<and> display_thread s = Display_idle then 1 else 0)"

text \<open>
  The ring is the zeroed ring after the appends that have finished; between the two statements
  of an append the slot is written and the cursor is not yet moved.
\<close>

definition audio_inv :: "nat \<Rightarrow> sys \<Rightarrow> bool" where
  "audio_inv N s =
     (case audio_thread s of
        Audio_idle \<Rightarrow>
          append_all N (completed s) (sem_init 1 (globals N)) = Inr (unlocked (shared s))
      | Audio_test buffer frames i \<Rightarrow>
          append_all N (completed s) (sem_init 1 (globals N)) = Inr (unlocked (shared s))
      | Audio_stored buffer frames i \<Rightarrow>
          (\<exists>p R. frame_at buffer i = Inr p
             \<and> append_all N (completed s) (sem_init 1 (globals N)) = Inr R
             \<and> unlocked (shared s) = R\<lparr>vertexBuffer := (vertexBuffer R)[cursor R := p]\<rparr>))"

text \<open>
  While the display thread is inside \<^verbatim>\<open>DrawVertexBuffer\<close>, the ring is the one it found
  when it took the semaphore, and what is left of its loop ends as the whole loop run on that
  ring ends.
\<close>

definition display_inv :: "nat \<Rightarrow> sys \<Rightarrow> bool" where
  "display_inv N s \<longleftrightarrow>
     append_all N (seen s) (sem_init 1 (globals N)) = Inr (acquired s)
     \<and> (case display_thread s of
          Display_idle \<Rightarrow> True
        | Display_entered drawOffset drawScale lineWidth color \<Rightarrow>
            unlocked (shared s) = acquired s \<and> completed s = seen s
        | Display_loop drawOffset drawScale lineWidth color i begin_pt out \<Rightarrow>
            unlocked (shared s) = acquired s \<and> completed s = seen s
            \<and> (case color of Color r g b a \<Rightarrow>
                 draw_loop N drawOffset drawScale (shared s) i begin_pt out =
                 draw_loop N drawOffset drawScale (shared s) 1
                   (to_pixel drawOffset drawScale (vertexBuffer (shared s) ! cursor (shared s)))
                   [rlSetLineWidth lineWidth, rlBegin_RL_LINES, rlColor4ub r g b a]))"

text \<open>
  Every finished walk drew what \<^verbatim>\<open>DrawVertexBuffer\<close>, run alone, draws from its
  snapshot, and the snapshot is the zeroed ring after the appends that had finished by then.
\<close>

definition walks_inv :: "nat \<Rightarrow> sys \<Rightarrow> bool" where
  "walks_inv N s \<longleftrightarrow>
     (\<forall>w \<in> set (walks s).
        DrawVertexBuffer N (at_offset w) (at_scale w) (at_width w) (at_color w) (snapshot w)
          = Inr (snapshot w, drawn w)
        \<and> (\<exists>ps qs. completed s = ps @ qs
              \<and> append_all N ps (sem_init 1 (globals N)) = Inr (snapshot w)))"

section \<open>Facts of float arithmetic\<close>

lemma bitlen_le: "n < 2 ^ k \<Longrightarrow> bitlen n \<le> k"
proof (induction k arbitrary: n)
  case 0
  then show ?case by (simp add: bitlen.simps)
next
  case (Suc k)
  then have "n div 2 < 2 ^ k"
    by simp
  from Suc.IH [OF this] show ?case
    by (subst bitlen.simps) simp
qed

lemma bitlen_eq: "2 ^ k \<le> n \<Longrightarrow> n < 2 ^ Suc k \<Longrightarrow> bitlen n = Suc k"
proof (induction k arbitrary: n)
  case 0
  then have "n = 1" by simp
  then show ?case by (simp add: bitlen.simps)
next
  case (Suc k)
  then have "2 ^ k \<le> n div 2" "n div 2 < 2 ^ Suc k" "n \<noteq> 0"
    by auto
  from Suc.IH [OF this(1,2)] this(3) show ?case
    by (subst bitlen.simps) simp
qed

lemma round_binary32_subnormal:
  assumes "f < 2 ^ 23"
  shows "round_binary32 s (f * 2 ^ u) u = Finite s 0 f"
proof -
  from assms have "f * 2 ^ u < 2 ^ 23 * 2 ^ u"
    by simp
  then have "f * 2 ^ u < 2 ^ (23 + u)"
    by (simp add: power_add)
  from bitlen_le [OF this] have d: "max u (bitlen (f * 2 ^ u) - 24) = u"
    by simp
  from assms show ?thesis
    by (simp add: round_binary32_def d Let_def)
qed

lemma round_binary32_normal:
  assumes "f < 2 ^ 23" and "0 < e" and "e < 255"
  shows "round_binary32 s ((2 ^ 23 + f) * 2 ^ (e - 1) * 2 ^ u) u = Finite s e f"
proof -
  let ?n = "(2 ^ 23 + f) * 2 ^ (e - 1) * 2 ^ u"
  have n: "?n = (2 ^ 23 + f) * 2 ^ (e - 1 + u)"
    by (simp add: power_add)
  have "2 ^ 23 * 2 ^ (e - 1 + u) \<le> ?n"
    unfolding n by (rule mult_le_mono1) simp
  then have lo: "2 ^ (23 + (e - 1 + u)) \<le> ?n"
    by (simp only: power_add)
  from assms have "2 ^ 23 + f < (2 ^ 24 :: nat)"
    by simp
  then have "?n < 2 ^ 24 * 2 ^ (e - 1 + u)"
    unfolding n by (intro mult_less_mono1) simp_all
  then have hi: "?n < 2 ^ Suc (23 + (e - 1 + u))"
    by (simp only: power_add power_Suc) simp
  from bitlen_eq [OF lo hi] have d: "max u (bitlen ?n - 24) = e - 1 + u"
    by simp
  have q: "?n div 2 ^ (e - 1 + u) = 2 ^ 23 + f" "?n mod 2 ^ (e - 1 + u) = 0"
    unfolding n by simp_all
  from assms show ?thesis
    unfolding round_binary32_def d Let_def q
    by simp
qed

lemma round_binary32_ulps:
  assumes "is_binary32 (Finite s e f)"
  shows "round_binary32 s (ulps e f * 2 ^ u) u = Finite s e f"
proof (cases "e = 0")
  case True
  with assms show ?thesis
    by (simp add: ulps_def round_binary32_subnormal)
next
  case False
  with assms show ?thesis
    unfolding ulps_def using round_binary32_normal [of f e s u] by simp
qed

lemma ulps_zero: "is_binary32 (Finite s e f) \<Longrightarrow> ulps e f = 0 \<longleftrightarrow> e = 0 \<and> f = 0"
  by (auto simp: ulps_def)

lemma ulps_float_one: "ulps 127 0 = 2 ^ 149"
  by (simp add: ulps_def)

lemma fmul_float_one: "is_binary32 x \<Longrightarrow> fmul x float_one = x"
proof (cases x)
  case (Finite s e f)
  assume "is_binary32 x"
  with Finite round_binary32_ulps [of s e f 149] show ?thesis
    by (simp add: float_one_def ulps_float_one del: is_binary32.simps)
next
  case (Infinite s)
  then show ?thesis
    by (simp add: float_one_def ulps_float_one)
next
  case NaN
  then show ?thesis
    by (simp add: float_one_def)
qed

lemma fadd_pos_zero:
  "is_binary32 x \<Longrightarrow> fadd x pos_zero = (if x = neg_zero then pos_zero else x)"
proof (cases x)
  case (Finite s e f)
  assume ok: "is_binary32 x"
  show ?thesis
  proof (cases "ulps e f = 0")
    case True
    with ok Finite have "e = 0" "f = 0"
      by (simp_all add: ulps_zero)
    with Finite show ?thesis
      by (cases s) (simp_all add: pos_zero_def neg_zero_def ulps_def signed_ulps_def)
  next
    case False
    with ok Finite have "x \<noteq> neg_zero"
      by (auto simp: neg_zero_def ulps_def split: if_splits)
    moreover from False have "signed_ulps s (ulps e f) + signed_ulps False (ulps 0 0) \<noteq> 0"
      "(signed_ulps s (ulps e f) + signed_ulps False (ulps 0 0) < 0) = s"
      "nat \<bar>signed_ulps s (ulps e f) + signed_ulps False (ulps 0 0)\<bar> = ulps e f"
      by (simp_all add: signed_ulps_def ulps_def [of 0 0])
    ultimately show ?thesis
      using ok Finite round_binary32_ulps [of s e f 0]
      by (simp add: pos_zero_def Let_def del: is_binary32.simps)
  qed
next
  case (Infinite s)
  then show ?thesis
    by (simp add: pos_zero_def neg_zero_def)
next
  case NaN
  then show ?thesis
    by (simp add: pos_zero_def neg_zero_def)
qed

lemma sign_xor_commute: "(s = (\<not> t)) = (t = (\<not> s))"
  by auto

lemma fmul_commute: "fmul a b = fmul b a"
  by (cases a; cases b) (simp_all add: mult.commute sign_xor_commute)

lemma fadd_commute: "fadd a b = fadd b a"
  by (cases a; cases b) (auto simp: add.commute conj_commute Let_def)

section \<open>Properties of the append\<close>

lemma INT_MAX_less: "N \<le> INT_MAX \<Longrightarrow> N < 2 ^ 32"
  by (simp add: INT_MAX_def)

lemma append_point_ok:
  assumes "ring_ok N st"
  shows "append_point N p st =
           Inr (st\<lparr>vertexBuffer := (vertexBuffer st)[cursor st := p],
                    cursor := (cursor st + 1) mod N\<rparr>)"
proof -
  from assms have "cursor st + 1 < 2 ^ 32"
    using INT_MAX_less [of N] by (simp add: ring_ok_def)
  with assms show ?thesis
    by (simp add: append_point_def ring_ok_def)
qed

text \<open>
  C3: in a well-formed ring with cursor \<open>c\<close>, an append returns, writes the point into slot
  \<open>c\<close>, leaves every other slot, the size of the array and the semaphore as they were, and
  moves the cursor to \<open>(c + 1) mod N\<close>, which is again below \<open>N\<close>.
\<close>

theorem append_point_writes_slot_and_advances:
  assumes "ring_ok N st"
  shows "\<exists>st'. append_point N p st = Inr st'
           \<and> vertexBuffer st' ! cursor st = p
           \<and> (\<forall>j. j \<noteq> cursor st \<longrightarrow> vertexBuffer st' ! j = vertexBuffer st ! j)
           \<and> length (vertexBuffer st') = N
           \<and> cursor st' = (cursor st + 1) mod N
           \<and> cursor st' < N
           \<and> mutex st' = mutex st
           \<and> ring_ok N st'"
  using assms by (simp add: append_point_ok) (simp add: ring_ok_def)

theorem append_point_writes_slot_and_advances_witness:
  "ring_ok 2 \<lparr>vertexBuffer = [0, 0 :: int], cursor = 1, mutex = 0\<rparr>
   \<and> append_point 2 7 \<lparr>vertexBuffer = [0, 0 :: int], cursor = 1, mutex = 0\<rparr>
       = Inr \<lparr>vertexBuffer = [0, 7], cursor = 0, mutex = 0\<rparr>"
proof -
  have ok: "ring_ok 2 \<lparr>vertexBuffer = [0, 0 :: int], cursor = 1, mutex = 0\<rparr>"
    by (simp add: ring_ok_def INT_MAX_def)
  from append_point_writes_slot_and_advances [OF ok, of 7] ok show ?thesis
    by (auto simp: append_point_def)
qed

section \<open>The ring after a run of appends\<close>

lemma length_walk_order: "length (walk_order st) = length (vertexBuffer st)"
  by (simp add: walk_order_def)

lemma walk_order_nth:
  assumes "ring_ok N st" and "i < N"
  shows "walk_order st ! i = vertexBuffer st ! ((cursor st + i) mod N)"
proof (cases "cursor st + i < N")
  case True
  then have "i < N - cursor st"
    by arith
  with True assms show ?thesis
    by (simp add: walk_order_def ring_ok_def nth_append)
next
  case False
  with assms have "N \<le> cursor st + i" "cursor st + i - N < N"
    by (auto simp: ring_ok_def)
  then have m: "(cursor st + i) mod N = cursor st + i - N"
    by (simp add: le_mod_geq)
  from False assms have "\<not> i < N - cursor st" "i - (N - cursor st) = cursor st + i - N"
    by (auto simp: ring_ok_def)
  with m assms show ?thesis
    by (simp add: walk_order_def ring_ok_def nth_append)
qed

lemma walk_order_append_point:
  assumes "ring_ok N st"
  shows "\<exists>st'. append_point N p st = Inr st' \<and> ring_ok N st'
           \<and> walk_order st' = tl (walk_order st) @ [p]
           \<and> mutex st' = mutex st
           \<and> cursor st' = (cursor st + 1) mod N"
proof (cases "cursor st + 1 < N")
  case True
  with assms show ?thesis
    by (simp add: append_point_ok walk_order_def ring_ok_def drop_Suc [symmetric] tl_drop
        take_Suc_conv_app_nth upd_conv_take_nth_drop)
next
  case False
  with assms have c: "cursor st + 1 = N"
    by (simp add: ring_ok_def)
  with assms show ?thesis
    by (simp add: append_point_ok walk_order_def ring_ok_def drop_Suc [symmetric] tl_drop
        upd_conv_take_nth_drop)
qed

lemma append_all_walk_order:
  assumes "ring_ok N st"
  shows "\<exists>st'. append_all N ps st = Inr st' \<and> ring_ok N st'
           \<and> walk_order st' = drop (length ps) (walk_order st @ ps)
           \<and> mutex st' = mutex st
           \<and> cursor st' = (cursor st + length ps) mod N"
  using assms
proof (induction ps arbitrary: st)
  case Nil
  then show ?case by (simp add: ring_ok_def)
next
  case (Cons p ps)
  from walk_order_append_point [OF Cons.prems, of p] obtain s1 where
    s1: "append_point N p st = Inr s1" "ring_ok N s1"
        "walk_order s1 = tl (walk_order st) @ [p]" "mutex s1 = mutex st"
        "cursor s1 = (cursor st + 1) mod N"
    by blast
  from Cons.IH [OF s1(2)] obtain s2 where
    s2: "append_all N ps s1 = Inr s2" "ring_ok N s2"
        "walk_order s2 = drop (length ps) (walk_order s1 @ ps)" "mutex s2 = mutex s1"
        "cursor s2 = (cursor s1 + length ps) mod N"
    by blast
  from Cons.prems have ne: "walk_order st \<noteq> []"
    by (auto simp: ring_ok_def walk_order_def)
  have "drop (length ps) (walk_order s1 @ ps) = drop (length (p # ps)) (walk_order st @ p # ps)"
    using ne s1(3) by (cases "walk_order st") simp_all
  moreover have "(cursor s1 + length ps) mod N = (cursor st + length (p # ps)) mod N"
    using s1(5) by (simp add: mod_simps)
  ultimately show ?case
    using s1 s2 by simp
qed

lemma globals_2:
  "globals 2 = \<lparr>vertexBuffer = [Vector2 pos_zero pos_zero, Vector2 pos_zero pos_zero],
                 cursor = 0, mutex = 0\<rparr>"
  by (simp add: globals_def numeral_2_eq_2)

lemma ring_ok_globals: "0 < N \<Longrightarrow> N \<le> INT_MAX \<Longrightarrow> ring_ok N (sem_init 1 (globals N))"
  by (simp add: ring_ok_def sem_init_def globals_def)

lemma walk_order_globals:
  "walk_order (sem_init v (globals N)) = replicate N (Vector2 pos_zero pos_zero)"
  by (simp add: walk_order_def sem_init_def globals_def)

lemma append_all_from_start:
  assumes "0 < N" and "N \<le> INT_MAX"
  shows "\<exists>st. append_all N ps (sem_init 1 (globals N)) = Inr st \<and> ring_ok N st \<and> mutex st = 1
           \<and> walk_order st = drop (length ps) (replicate N (Vector2 pos_zero pos_zero) @ ps)"
proof -
  have "mutex (sem_init 1 (globals N)) = 1"
    by (simp add: sem_init_def)
  with append_all_walk_order [OF ring_ok_globals [OF assms], of ps] show ?thesis
    unfolding walk_order_globals by auto
qed

section \<open>callback as a run of appends\<close>

lemma append_point_mutex:
  "append_point N p (st\<lparr>mutex := m\<rparr>) =
     (case append_point N p st of Inl e \<Rightarrow> Inl e | Inr st' \<Rightarrow> Inr (st'\<lparr>mutex := m\<rparr>))"
  by (simp add: append_point_def)

lemma append_all_mutex:
  "append_all N ps (st\<lparr>mutex := m\<rparr>) =
     (case append_all N ps st of Inl e \<Rightarrow> Inl e | Inr st' \<Rightarrow> Inr (st'\<lparr>mutex := m\<rparr>))"
  by (induction ps arbitrary: st) (auto simp: append_point_mutex split: sum.splits)

lemma append_all_keeps_mutex: "append_all N ps st = Inr st' \<Longrightarrow> mutex st' = mutex st"
proof (induction ps arbitrary: st)
  case Nil
  then show ?case by simp
next
  case (Cons p ps)
  then show ?case
    by (auto simp: append_point_def split: sum.splits if_splits)
qed

lemma callback_loop_append_all:
  "2 * frames \<le> length buffer \<Longrightarrow> frames \<le> INT_MAX \<Longrightarrow>
   callback_loop N buffer frames i st =
     append_all N (map (\<lambda>i. Vector2 (buffer ! (2 * i)) (buffer ! (2 * i + 1))) [i..<frames]) st"
proof (induction N buffer frames i st rule: callback_loop.induct)
  case (1 N buffer frames i st)
  show ?case
  proof (cases "i < frames")
    case False
    then show ?thesis
      by (simp add: callback_loop.simps [of N buffer frames i st])
  next
    case True
    with "1.prems" have fr: "frame_at buffer i = Inr (Vector2 (buffer ! (2 * i)) (buffer ! (2 * i + 1)))"
      and ni: "i \<noteq> INT_MAX"
      by (auto simp: frame_at_def)
    show ?thesis
    proof (cases "append_point N (Vector2 (buffer ! (2 * i)) (buffer ! (2 * i + 1))) st")
      case (Inl e)
      with True fr show ?thesis
        by (simp add: callback_loop.simps [of N buffer frames i st] upt_conv_Cons)
    next
      case (Inr st')
      with True fr ni "1.IH" [OF True fr Inr ni "1.prems"] show ?thesis
        by (simp add: callback_loop.simps [of N buffer frames i st] upt_conv_Cons)
    qed
  qed
qed

lemma callback_append_all:
  assumes "0 < mutex st" and "2 * frames \<le> length buffer" and "frames \<le> INT_MAX"
  shows "callback N buffer frames st = append_all N (frames_of buffer frames) st"
proof (cases "append_all N (frames_of buffer frames) st")
  case (Inl e)
  with assms show ?thesis
    by (simp add: callback_def sem_wait_def callback_loop_append_all append_all_mutex
        frames_of_def)
next
  case (Inr st')
  with assms append_all_keeps_mutex [OF Inr] show ?thesis
    by (simp add: callback_def sem_wait_def sem_post_def callback_loop_append_all
        append_all_mutex frames_of_def)
qed

section \<open>What DrawVertexBuffer emits\<close>

lemma index_no_wrap:
  assumes "ring_ok N st" and "i < N"
  shows "((cursor st + i) mod 2 ^ 32) mod N = (cursor st + i) mod N"
proof -
  from assms have "cursor st + i < 2 ^ 32"
    by (simp add: ring_ok_def INT_MAX_def)
  then show ?thesis by simp
qed

lemma draw_loop_out:
  "ring_ok N st \<Longrightarrow> 0 < i \<Longrightarrow>
   begin_pt = to_pixel drawOffset drawScale (walk_order st ! (i - 1)) \<Longrightarrow>
   draw_loop N drawOffset drawScale st i begin_pt out =
     Inr (out @ concat (map (\<lambda>j.
       [rlVertex2f (vec_x (to_pixel drawOffset drawScale (walk_order st ! (j - 1))))
                   (vec_y (to_pixel drawOffset drawScale (walk_order st ! (j - 1)))),
        rlVertex2f (vec_x (to_pixel drawOffset drawScale (walk_order st ! j)))
                   (vec_y (to_pixel drawOffset drawScale (walk_order st ! j)))]) [i..<N]))"
proof (induction N drawOffset drawScale st i begin_pt out rule: draw_loop.induct)
  case (1 N drawOffset drawScale st i begin_pt out)
  show ?case
  proof (cases "i < N")
    case False
    then show ?thesis
      by (simp add: draw_loop.simps [of N drawOffset drawScale st i begin_pt out])
  next
    case True
    let ?k = "((cursor st + i) mod 2 ^ 32) mod N"
    from True "1.prems" have k: "?k = (cursor st + i) mod N"
      by (intro index_no_wrap)
    from "1.prems" have "?k < length (vertexBuffer st)"
      by (simp add: ring_ok_def)
    moreover have nth: "vertexBuffer st ! ?k = walk_order st ! i"
      unfolding k using walk_order_nth [OF "1.prems"(1) True] by simp
    ultimately show ?thesis
      using True "1.prems" "1.IH" [OF True refl _ refl "1.prems"(1)]
      by (subst draw_loop.simps) (simp add: upt_conv_Cons Let_def)
  qed
qed


lemma vertices_append: "vertices (cs @ ds) = vertices cs @ vertices ds"
  by (induction cs rule: vertices.induct) simp_all

lemma vertices_pairs:
  "vertices (concat (map (\<lambda>j. [rlVertex2f (vec_x (f j)) (vec_y (f j)),
                                    rlVertex2f (vec_x (g j)) (vec_y (g j))]) js))
     = concat (map (\<lambda>j. [f j, g j]) js)"
  by (induction js) simp_all

lemma line_pairs_concat: "line_pairs (concat (map (\<lambda>j. [f j, g j]) js)) = map (\<lambda>j. (f j, g j)) js"
  by (induction js) simp_all

lemma polyline_nth:
  "polyline pts = map (\<lambda>j. (pts ! (j - 1), pts ! j)) [1..<length pts]"
proof (rule nth_equalityI)
  show "length (polyline pts) = length (map (\<lambda>j. (pts ! (j - 1), pts ! j)) [1..<length pts])"
    by (simp add: polyline_def)
next
  fix i
  assume "i < length (polyline pts)"
  then have i: "i < length pts - 1"
    by (simp add: polyline_def)
  then show "polyline pts ! i = map (\<lambda>j. (pts ! (j - 1), pts ! j)) [1..<length pts] ! i"
    by (simp add: polyline_def nth_tl)
qed

lemma walk_order_mutex: "walk_order (st\<lparr>mutex := m\<rparr>) = walk_order st"
  by (simp add: walk_order_def)

lemma DrawVertexBuffer_out:
  assumes "ring_ok N st" and "0 < mutex st"
  shows "DrawVertexBuffer N drawOffset drawScale lineWidth (Color r g b a) st =
           Inr (st, [rlSetLineWidth lineWidth, rlBegin_RL_LINES, rlColor4ub r g b a]
                    @ concat (map (\<lambda>j.
                        [rlVertex2f (vec_x (to_pixel drawOffset drawScale (walk_order st ! (j - 1))))
                                    (vec_y (to_pixel drawOffset drawScale (walk_order st ! (j - 1)))),
                         rlVertex2f (vec_x (to_pixel drawOffset drawScale (walk_order st ! j)))
                                    (vec_y (to_pixel drawOffset drawScale (walk_order st ! j)))])
                        [1..<N])
                    @ [rlEnd])"
proof -
  let ?s1 = "st\<lparr>mutex := mutex st - 1\<rparr>"
  from assms have ok: "ring_ok N ?s1"
    by (simp add: ring_ok_def)
  from assms have b: "vertexBuffer st ! cursor st = walk_order st ! 0"
    using walk_order_nth [OF assms(1), of 0] by (simp add: ring_ok_def)
  from assms have post: "sem_post ?s1 = st"
    by (simp add: sem_post_def)
  from assms have c: "cursor ?s1 < length (vertexBuffer ?s1)"
    by (simp add: ring_ok_def)
  show ?thesis
    unfolding DrawVertexBuffer_def
    using assms(2) c post draw_loop_out [OF ok, of 1 _ drawOffset drawScale, OF _ refl]
    by (simp add: sem_wait_def b walk_order_mutex)
qed

lemma DrawVertexBuffer_segments:
  assumes "ring_ok N st" and "0 < mutex st"
  shows "\<exists>out. DrawVertexBuffer N drawOffset drawScale lineWidth color st = Inr (st, out)
           \<and> segments out = polyline (map (to_pixel drawOffset drawScale) (walk_order st))"
proof -
  obtain r g b a where col: "color = Color r g b a"
    by (cases color)
  from assms have len: "length (walk_order st) = N"
    by (simp add: length_walk_order ring_ok_def)
  have "map (\<lambda>j. (to_pixel drawOffset drawScale (walk_order st ! (j - 1)),
                    to_pixel drawOffset drawScale (walk_order st ! j))) [1..<N]
        = polyline (map (to_pixel drawOffset drawScale) (walk_order st))"
    by (auto simp: polyline_nth len)
  then show ?thesis
    unfolding col DrawVertexBuffer_out [OF assms]
    by (simp add: segments_def vertices_append vertices_pairs line_pairs_concat)
qed

section \<open>The pixel of a point\<close>

lemma to_pixel_components:
  "to_pixel drawOffset drawScale (Vector2 x y) =
     Vector2 (fadd (fmul x drawScale) (vec_x drawOffset)) (fadd (fmul y drawScale) (vec_y drawOffset))"
  by (cases drawOffset) (simp add: to_pixel_def)

lemma to_pixel_identity:
  assumes "is_binary32 x" and "is_binary32 y"
  shows "to_pixel (Vector2 pos_zero pos_zero) float_one (Vector2 x y) =
           Vector2 (if x = neg_zero then pos_zero else x) (if y = neg_zero then pos_zero else y)"
  using assms by (simp add: to_pixel_components fmul_float_one fadd_pos_zero)

lemma is_binary32_consts:
  "is_binary32 pos_zero" "is_binary32 neg_zero" "is_binary32 float_one"
  "is_binary32 (fneg float_one)" "is_binary32 (Finite False 126 0)" "is_binary32 (Finite True 126 0)"
  by (simp_all add: pos_zero_def neg_zero_def float_one_def)

lemma consts_not_neg_zero:
  "pos_zero \<noteq> neg_zero" "float_one \<noteq> neg_zero" "fneg float_one \<noteq> neg_zero"
  "Finite False 126 0 \<noteq> neg_zero" "Finite True 126 0 \<noteq> neg_zero"
  by (simp_all add: pos_zero_def neg_zero_def float_one_def)

section \<open>What the older DrawVertexBuffer emits\<close>

lemma draw_loop_v1_out:
  "ring_ok N st \<Longrightarrow> 0 < i \<Longrightarrow> begin_pt = walk_order st ! (i - 1) \<Longrightarrow>
   draw_loop_v1 N st i begin_pt out =
     Inr (out @ map (\<lambda>j. DrawLineEx (walk_order st ! (j - 1)) (walk_order st ! j) LINE_WIDTH WHITE)
                  [i..<N])"
proof (induction N st i begin_pt out rule: draw_loop_v1.induct)
  case (1 N st i begin_pt out)
  show ?case
  proof (cases "i < N")
    case False
    then show ?thesis
      by (simp add: draw_loop_v1.simps [of N st i begin_pt out])
  next
    case True
    let ?k = "((cursor st + i) mod 2 ^ 32) mod N"
    from True "1.prems" have k: "?k = (cursor st + i) mod N"
      by (intro index_no_wrap)
    from "1.prems" have "?k < length (vertexBuffer st)"
      by (simp add: ring_ok_def)
    moreover have nth: "vertexBuffer st ! ?k = walk_order st ! i"
      unfolding k using walk_order_nth [OF "1.prems"(1) True] by simp
    ultimately show ?thesis
      using True "1.prems" "1.IH" [OF True refl _ refl "1.prems"(1)]
      by (subst draw_loop_v1.simps) (simp add: upt_conv_Cons Let_def)
  qed
qed

lemma segments_v1_append: "segments_v1 (cs @ ds) = segments_v1 cs @ segments_v1 ds"
  by (induction cs rule: segments_v1.induct) simp_all

lemma segments_v1_lines:
  "segments_v1 (map (\<lambda>j. DrawLineEx (f j) (g j) w c) js) = map (\<lambda>j. (f j, g j)) js"
  by (induction js) simp_all

lemma DrawVertexBuffer_v1_out:
  assumes "ring_ok N st" and "0 < mutex st"
  shows "DrawVertexBuffer_v1 N st =
           Inr (st, map (\<lambda>j. DrawLineEx (walk_order st ! (j - 1)) (walk_order st ! j)
                               LINE_WIDTH WHITE) [1..<N])"
proof -
  let ?s1 = "st\<lparr>mutex := mutex st - 1\<rparr>"
  from assms have ok: "ring_ok N ?s1"
    by (simp add: ring_ok_def)
  from assms have b: "vertexBuffer st ! cursor st = walk_order st ! 0"
    using walk_order_nth [OF assms(1), of 0] by (simp add: ring_ok_def)
  from assms have post: "sem_post ?s1 = st"
    by (simp add: sem_post_def)
  from assms have c: "cursor ?s1 < length (vertexBuffer ?s1)"
    by (simp add: ring_ok_def)
  show ?thesis
    unfolding DrawVertexBuffer_v1_def
    using assms(2) c post draw_loop_v1_out [OF ok, of 1 _, OF _ refl]
    by (simp add: sem_wait_def b walk_order_mutex)
qed

lemma DrawVertexBuffer_v1_segments:
  assumes "ring_ok N st" and "0 < mutex st"
  shows "\<exists>out. DrawVertexBuffer_v1 N st = Inr (st, out)
           \<and> segments_v1 out = polyline (walk_order st)"
proof -
  from assms have len: "length (walk_order st) = N"
    by (simp add: length_walk_order ring_ok_def)
  show ?thesis
    unfolding DrawVertexBuffer_v1_out [OF assms]
    by (simp add: segments_v1_lines polyline_nth len)
qed

lemma length_polyline: "length (polyline pts) = length pts - 1"
  by (simp add: polyline_def)

lemma polyline_at: "i < length pts - 1 \<Longrightarrow> polyline pts ! i = (pts ! i, pts ! Suc i)"
  by (simp add: polyline_def nth_tl)

section \<open>The snapshot walk\<close>

text \<open>
  C2: on a well-formed ring whose semaphore is free, one call of \<^verbatim>\<open>DrawVertexBuffer\<close>
  returns, leaves the ring as it was (so that the next call is a fresh pass over the same
  data), and draws exactly \<open>N - 1\<close> line segments; the \<open>i\<close>-th segment, for \<open>1 \<le> i < N\<close>,
  goes from (the pixel of) slot \<open>(c + i - 1) mod N\<close> to (the pixel of) slot \<open>(c + i) mod N\<close>,
  where \<open>c\<close> is the cursor: the walk starts at the slot the cursor points to and goes forward
  with wrap-around. The older variant does the same with the stored points themselves.
\<close>

theorem DrawVertexBuffer_walks_from_cursor:
  assumes "ring_ok N st" and "0 < mutex st"
  shows "(\<exists>out. DrawVertexBuffer N drawOffset drawScale lineWidth color st = Inr (st, out)
            \<and> length (segments out) = N - 1
            \<and> (\<forall>i. 1 \<le> i \<and> i < N \<longrightarrow>
                  segments out ! (i - 1) =
                    (to_pixel drawOffset drawScale (vertexBuffer st ! ((cursor st + i - 1) mod N)),
                     to_pixel drawOffset drawScale (vertexBuffer st ! ((cursor st + i) mod N)))))
       \<and> (\<exists>out. DrawVertexBuffer_v1 N st = Inr (st, out)
            \<and> length (segments_v1 out) = N - 1
            \<and> (\<forall>i. 1 \<le> i \<and> i < N \<longrightarrow>
                  segments_v1 out ! (i - 1) =
                    (vertexBuffer st ! ((cursor st + i - 1) mod N),
                     vertexBuffer st ! ((cursor st + i) mod N))))"
proof -
  from assms have len: "length (walk_order st) = N"
    by (simp add: length_walk_order ring_ok_def)
  have nth: "walk_order st ! (i - 1) = vertexBuffer st ! ((cursor st + i - 1) mod N)
             \<and> walk_order st ! i = vertexBuffer st ! ((cursor st + i) mod N)"
    if "1 \<le> i" and "i < N" for i
    using that walk_order_nth [OF assms(1), of i] walk_order_nth [OF assms(1), of "i - 1"]
    by simp
  from DrawVertexBuffer_segments [OF assms, of drawOffset drawScale lineWidth color]
  obtain out where out: "DrawVertexBuffer N drawOffset drawScale lineWidth color st = Inr (st, out)"
    "segments out = polyline (map (to_pixel drawOffset drawScale) (walk_order st))"
    by blast
  from DrawVertexBuffer_v1_segments [OF assms]
  obtain out1 where out1: "DrawVertexBuffer_v1 N st = Inr (st, out1)"
    "segments_v1 out1 = polyline (walk_order st)"
    by blast
  have "length (segments out) = N - 1"
    by (simp add: out(2) length_polyline len)
  moreover have "segments out ! (i - 1) =
      (to_pixel drawOffset drawScale (vertexBuffer st ! ((cursor st + i - 1) mod N)),
       to_pixel drawOffset drawScale (vertexBuffer st ! ((cursor st + i) mod N)))"
    if "1 \<le> i" and "i < N" for i
    using that nth [OF that] by (simp add: out(2) polyline_at len)
  moreover have "length (segments_v1 out1) = N - 1"
    by (simp add: out1(2) length_polyline len)
  moreover have "segments_v1 out1 ! (i - 1) =
      (vertexBuffer st ! ((cursor st + i - 1) mod N), vertexBuffer st ! ((cursor st + i) mod N))"
    if "1 \<le> i" and "i < N" for i
    using that nth [OF that] by (simp add: out1(2) polyline_at len)
  ultimately show ?thesis
    using out(1) out1(1) by simp
qed

theorem DrawVertexBuffer_walks_from_cursor_witness:
  "ring_ok 2 \<lparr>vertexBuffer = [Vector2 float_one pos_zero, Vector2 pos_zero float_one],
               cursor = 1, mutex = 1\<rparr>
   \<and> (\<exists>out. DrawVertexBuffer 2 (Vector2 pos_zero pos_zero) float_one LINE_WIDTH WHITE
             \<lparr>vertexBuffer = [Vector2 float_one pos_zero, Vector2 pos_zero float_one],
              cursor = 1, mutex = 1\<rparr>
           = Inr (\<lparr>vertexBuffer = [Vector2 float_one pos_zero, Vector2 pos_zero float_one],
                   cursor = 1, mutex = 1\<rparr>, out)
         \<and> length (segments out) = 1
         \<and> segments out ! 0 =
             (to_pixel (Vector2 pos_zero pos_zero) float_one (Vector2 pos_zero float_one),
              to_pixel (Vector2 pos_zero pos_zero) float_one (Vector2 float_one pos_zero)))"
proof -
  let ?st = "\<lparr>vertexBuffer = [Vector2 float_one pos_zero, Vector2 pos_zero float_one],
              cursor = 1, mutex = 1\<rparr>"
  have ok: "ring_ok 2 ?st"
    by (simp add: ring_ok_def INT_MAX_def)
  have free: "0 < mutex ?st"
    by simp
  from DrawVertexBuffer_walks_from_cursor [OF ok free, of "Vector2 pos_zero pos_zero" float_one
      LINE_WIDTH WHITE]
  obtain out where
    "DrawVertexBuffer 2 (Vector2 pos_zero pos_zero) float_one LINE_WIDTH WHITE ?st = Inr (?st, out)"
    "length (segments out) = 2 - 1"
    "\<forall>i. 1 \<le> i \<and> i < 2 \<longrightarrow> segments out ! (i - 1) =
       (to_pixel (Vector2 pos_zero pos_zero) float_one (vertexBuffer ?st ! ((cursor ?st + i - 1) mod 2)),
        to_pixel (Vector2 pos_zero pos_zero) float_one (vertexBuffer ?st ! ((cursor ?st + i) mod 2)))"
    by blast
  note out = this
  from out(3) [rule_format, of 1] have
    "segments out ! 0 =
       (to_pixel (Vector2 pos_zero pos_zero) float_one (Vector2 pos_zero float_one),
        to_pixel (Vector2 pos_zero pos_zero) float_one (Vector2 float_one pos_zero))"
    by simp
  with out(1,2) ok show ?thesis
    by (intro conjI exI [of _ out]) simp_all
qed

section \<open>Drawing leaves the ring alone\<close>

text \<open>
  C8: a call of \<^verbatim>\<open>DrawVertexBuffer\<close> on a well-formed ring whose semaphore is free returns
  the very state it was given: every slot, the cursor and the semaphore are as before. What
  it draws is a function of its arguments, the slots and the cursor alone: from any other
  state with the same slots and cursor it draws the same.
\<close>

theorem DrawVertexBuffer_mutates_nothing:
  assumes "ring_ok N st" and "0 < mutex st"
  shows "\<exists>out. DrawVertexBuffer N drawOffset drawScale lineWidth color st = Inr (st, out)
           \<and> (\<forall>st2. vertexBuffer st2 = vertexBuffer st \<and> cursor st2 = cursor st \<and> 0 < mutex st2
                  \<longrightarrow> DrawVertexBuffer N drawOffset drawScale lineWidth color st2 = Inr (st2, out))"
proof -
  obtain r g b a where col: "color = Color r g b a"
    by (cases color)
  have "DrawVertexBuffer N drawOffset drawScale lineWidth color st2 =
          Inr (st2, snd (projr (DrawVertexBuffer N drawOffset drawScale lineWidth color st)))"
    if same: "vertexBuffer st2 = vertexBuffer st" "cursor st2 = cursor st" and free: "0 < mutex st2"
    for st2 :: "Vector2 ring"
  proof -
    from assms(1) same have ok2: "ring_ok N st2"
      by (simp add: ring_ok_def)
    from same have "walk_order st2 = walk_order st"
      by (simp add: walk_order_def)
    then show ?thesis
      unfolding col DrawVertexBuffer_out [OF ok2 free] DrawVertexBuffer_out [OF assms]
      by simp
  qed
  moreover have "DrawVertexBuffer N drawOffset drawScale lineWidth color st =
          Inr (st, snd (projr (DrawVertexBuffer N drawOffset drawScale lineWidth color st)))"
    unfolding col DrawVertexBuffer_out [OF assms] by simp
  ultimately show ?thesis
    by blast
qed

theorem DrawVertexBuffer_mutates_nothing_witness:
  "ring_ok 2 \<lparr>vertexBuffer = [Vector2 float_one pos_zero, Vector2 pos_zero float_one],
               cursor = 1, mutex = 1\<rparr>
   \<and> map_sum id fst (DrawVertexBuffer 2 (Vector2 pos_zero pos_zero) float_one LINE_WIDTH WHITE
         \<lparr>vertexBuffer = [Vector2 float_one pos_zero, Vector2 pos_zero float_one],
          cursor = 1, mutex = 1\<rparr>)
       = Inr \<lparr>vertexBuffer = [Vector2 float_one pos_zero, Vector2 pos_zero float_one],
              cursor = 1, mutex = 1\<rparr>"
proof -
  let ?st = "\<lparr>vertexBuffer = [Vector2 float_one pos_zero, Vector2 pos_zero float_one],
              cursor = 1, mutex = 1\<rparr>"
  have ok: "ring_ok 2 ?st"
    by (simp add: ring_ok_def INT_MAX_def)
  have free: "0 < mutex ?st"
    by simp
  from DrawVertexBuffer_mutates_nothing [OF ok free, of "Vector2 pos_zero pos_zero" float_one
      LINE_WIDTH WHITE]
  obtain out where
    "DrawVertexBuffer 2 (Vector2 pos_zero pos_zero) float_one LINE_WIDTH WHITE ?st = Inr (?st, out)"
    by blast
  with ok show ?thesis
    by simp
qed

section \<open>The order of the walk\<close>

text \<open>
  C4: from the zero-initialised ring of \<^verbatim>\<open>main\<close>, after \<open>k \<le> N\<close> appends the walk of
  \<^verbatim>\<open>DrawVertexBuffer\<close> visits \<open>N - k\<close> zero points and then the \<open>k\<close> appended points in
  the order of their appends, and draws the polyline through (the pixels of) these \<open>N\<close>
  points.
\<close>

theorem walk_after_at_most_N_appends:
  assumes "0 < N" and "N \<le> INT_MAX" and "length ps \<le> N"
  shows "\<exists>st out. append_all N ps (sem_init 1 (globals N)) = Inr st
           \<and> walk_order st = replicate (N - length ps) (Vector2 pos_zero pos_zero) @ ps
           \<and> DrawVertexBuffer N drawOffset drawScale lineWidth color st = Inr (st, out)
           \<and> segments out =
               polyline (map (to_pixel drawOffset drawScale)
                 (replicate (N - length ps) (Vector2 pos_zero pos_zero) @ ps))"
proof -
  from append_all_from_start [OF assms(1,2), of ps] obtain st where
    st: "append_all N ps (sem_init 1 (globals N)) = Inr st" "ring_ok N st" "mutex st = 1"
      "walk_order st = drop (length ps) (replicate N (Vector2 pos_zero pos_zero) @ ps)"
    by blast
  from assms(3) st(4) have w: "walk_order st = replicate (N - length ps) (Vector2 pos_zero pos_zero) @ ps"
    by simp
  from st(3) have free: "0 < mutex st"
    by simp
  from DrawVertexBuffer_segments [OF st(2) free, of drawOffset drawScale lineWidth color]
  obtain out where "DrawVertexBuffer N drawOffset drawScale lineWidth color st = Inr (st, out)"
    "segments out = polyline (map (to_pixel drawOffset drawScale) (walk_order st))"
    by blast
  with st(1) w show ?thesis
    by auto
qed

theorem walk_after_at_most_N_appends_witness:
  "0 < (4::nat) \<and> 4 \<le> INT_MAX
   \<and> length [Vector2 (Finite False 126 0) (Finite False 126 0),
              Vector2 (Finite True 126 0) (Finite True 126 0)] \<le> 4
   \<and> (\<exists>st out.
         append_all 4 [Vector2 (Finite False 126 0) (Finite False 126 0),
                       Vector2 (Finite True 126 0) (Finite True 126 0)] (sem_init 1 (globals 4))
           = Inr st
         \<and> walk_order st =
             [Vector2 pos_zero pos_zero, Vector2 pos_zero pos_zero,
              Vector2 (Finite False 126 0) (Finite False 126 0),
              Vector2 (Finite True 126 0) (Finite True 126 0)]
         \<and> DrawVertexBuffer 4 (Vector2 pos_zero pos_zero) float_one LINE_WIDTH WHITE st = Inr (st, out)
         \<and> segments out =
             [(Vector2 pos_zero pos_zero, Vector2 pos_zero pos_zero),
              (Vector2 pos_zero pos_zero, Vector2 (Finite False 126 0) (Finite False 126 0)),
              (Vector2 (Finite False 126 0) (Finite False 126 0),
               Vector2 (Finite True 126 0) (Finite True 126 0))])"
proof -
  let ?ps = "[Vector2 (Finite False 126 0) (Finite False 126 0),
              Vector2 (Finite True 126 0) (Finite True 126 0)]"
  have pos: "0 < (4::nat)"
    by simp
  have small: "4 \<le> INT_MAX"
    by (simp add: INT_MAX_def)
  have len: "length ?ps \<le> 4"
    by simp
  have zeros: "replicate (4 - length ?ps) (Vector2 pos_zero pos_zero) =
                 [Vector2 pos_zero pos_zero, Vector2 pos_zero pos_zero]"
    by (simp add: numeral_2_eq_2)
  from walk_after_at_most_N_appends [OF pos small len, of "Vector2 pos_zero pos_zero" float_one
      LINE_WIDTH WHITE]
  obtain st out where
    "append_all 4 ?ps (sem_init 1 (globals 4)) = Inr st"
    "walk_order st = replicate (4 - length ?ps) (Vector2 pos_zero pos_zero) @ ?ps"
    "DrawVertexBuffer 4 (Vector2 pos_zero pos_zero) float_one LINE_WIDTH WHITE st = Inr (st, out)"
    "segments out = polyline (map (to_pixel (Vector2 pos_zero pos_zero) float_one)
       (replicate (4 - length ?ps) (Vector2 pos_zero pos_zero) @ ?ps))"
    by blast
  then have "append_all 4 ?ps (sem_init 1 (globals 4)) = Inr st
      \<and> walk_order st =
          [Vector2 pos_zero pos_zero, Vector2 pos_zero pos_zero,
           Vector2 (Finite False 126 0) (Finite False 126 0),
           Vector2 (Finite True 126 0) (Finite True 126 0)]
      \<and> DrawVertexBuffer 4 (Vector2 pos_zero pos_zero) float_one LINE_WIDTH WHITE st = Inr (st, out)
      \<and> segments out =
          [(Vector2 pos_zero pos_zero, Vector2 pos_zero pos_zero),
           (Vector2 pos_zero pos_zero, Vector2 (Finite False 126 0) (Finite False 126 0)),
           (Vector2 (Finite False 126 0) (Finite False 126 0),
            Vector2 (Finite True 126 0) (Finite True 126 0))]"
    unfolding zeros
    by (simp add: polyline_def to_pixel_identity is_binary32_consts consts_not_neg_zero)
  with pos small len show ?thesis
    by blast
qed


text \<open>
  C5: from the zero-initialised ring of \<^verbatim>\<open>main\<close>, after \<open>N + m\<close> appends the walk of
  \<^verbatim>\<open>DrawVertexBuffer\<close> visits exactly the last \<open>N\<close> appended points, each once, oldest
  first (the list of appended points without its first \<open>m\<close>), and draws the polyline through
  (the pixels of) them.
\<close>

theorem walk_after_more_than_N_appends:
  assumes "0 < N" and "N \<le> INT_MAX" and "length ps = N + m"
  shows "\<exists>st out. append_all N ps (sem_init 1 (globals N)) = Inr st
           \<and> walk_order st = drop m ps
           \<and> length (walk_order st) = N
           \<and> DrawVertexBuffer N drawOffset drawScale lineWidth color st = Inr (st, out)
           \<and> segments out = polyline (map (to_pixel drawOffset drawScale) (drop m ps))"
proof -
  from append_all_from_start [OF assms(1,2), of ps] obtain st where
    st: "append_all N ps (sem_init 1 (globals N)) = Inr st" "ring_ok N st" "mutex st = 1"
      "walk_order st = drop (length ps) (replicate N (Vector2 pos_zero pos_zero) @ ps)"
    by blast
  from assms(3) st(4) have w: "walk_order st = drop m ps"
    by simp
  from st(3) have free: "0 < mutex st"
    by simp
  from DrawVertexBuffer_segments [OF st(2) free, of drawOffset drawScale lineWidth color]
  obtain out where "DrawVertexBuffer N drawOffset drawScale lineWidth color st = Inr (st, out)"
    "segments out = polyline (map (to_pixel drawOffset drawScale) (walk_order st))"
    by blast
  with st(1) w assms(3) show ?thesis
    by auto
qed

theorem walk_after_more_than_N_appends_witness:
  "0 < (2::nat) \<and> 2 \<le> INT_MAX
   \<and> length [Vector2 float_one pos_zero, Vector2 pos_zero float_one,
              Vector2 (fneg float_one) pos_zero] = 2 + 1
   \<and> (\<exists>st out.
         append_all 2 [Vector2 float_one pos_zero, Vector2 pos_zero float_one,
                       Vector2 (fneg float_one) pos_zero] (sem_init 1 (globals 2))
           = Inr st
         \<and> walk_order st = [Vector2 pos_zero float_one, Vector2 (fneg float_one) pos_zero]
         \<and> DrawVertexBuffer 2 (Vector2 pos_zero pos_zero) float_one LINE_WIDTH WHITE st = Inr (st, out)
         \<and> segments out = [(Vector2 pos_zero float_one, Vector2 (fneg float_one) pos_zero)])"
proof -
  let ?ps = "[Vector2 float_one pos_zero, Vector2 pos_zero float_one,
              Vector2 (fneg float_one) pos_zero]"
  have pos: "0 < (2::nat)"
    by simp
  have small: "2 \<le> INT_MAX"
    by (simp add: INT_MAX_def)
  have len: "length ?ps = 2 + 1"
    by simp
  from walk_after_more_than_N_appends [OF pos small len, of "Vector2 pos_zero pos_zero" float_one
      LINE_WIDTH WHITE]
  obtain st out where
    "append_all 2 ?ps (sem_init 1 (globals 2)) = Inr st"
    "walk_order st = drop 1 ?ps"
    "DrawVertexBuffer 2 (Vector2 pos_zero pos_zero) float_one LINE_WIDTH WHITE st = Inr (st, out)"
    "segments out = polyline (map (to_pixel (Vector2 pos_zero pos_zero) float_one) (drop 1 ?ps))"
    by blast
  then have "append_all 2 ?ps (sem_init 1 (globals 2)) = Inr st
      \<and> walk_order st = [Vector2 pos_zero float_one, Vector2 (fneg float_one) pos_zero]
      \<and> DrawVertexBuffer 2 (Vector2 pos_zero pos_zero) float_one LINE_WIDTH WHITE st = Inr (st, out)
      \<and> segments out = [(Vector2 pos_zero float_one, Vector2 (fneg float_one) pos_zero)]"
    by (simp add: polyline_def to_pixel_identity is_binary32_consts consts_not_neg_zero)
  with pos small len show ?thesis
    by blast
qed


section \<open>The pixel transform at scale one\<close>

lemma feq_refl: "x \<noteq> NaN \<Longrightarrow> feq x x"
  by (cases x) simp_all

lemma feq_zeros: "feq pos_zero neg_zero"
  by (simp add: pos_zero_def neg_zero_def signed_ulps_def ulps_def)

text \<open>
  C7, as amended: the pixel of a point is computed coordinate by coordinate as
  \<open>point * scale + offset\<close> in float arithmetic. With scale 1 and offset \<open>(+0, +0)\<close> every
  binary32 coordinate that is not a NaN comes out bit for bit as it went in, except a negative
  zero, which comes out as positive zero; so the result compares equal (\<^verbatim>\<open>==\<close>) to the
  coordinate. A coordinate that is a NaN comes out as a NaN, and nothing is said about its
  bits.
\<close>

theorem to_pixel_scale_one_offset_zero:
  assumes "is_binary32 x" and "is_binary32 y"
  shows "to_pixel drawOffset drawScale (Vector2 x y) =
           Vector2 (fadd (fmul x drawScale) (vec_x drawOffset))
                   (fadd (fmul y drawScale) (vec_y drawOffset))
         \<and> (\<not> is_nan x \<longrightarrow>
               vec_x (to_pixel (Vector2 pos_zero pos_zero) float_one (Vector2 x y)) =
                 (if x = neg_zero then pos_zero else x)
               \<and> feq (vec_x (to_pixel (Vector2 pos_zero pos_zero) float_one (Vector2 x y))) x)
         \<and> (\<not> is_nan y \<longrightarrow>
               vec_y (to_pixel (Vector2 pos_zero pos_zero) float_one (Vector2 x y)) =
                 (if y = neg_zero then pos_zero else y)
               \<and> feq (vec_y (to_pixel (Vector2 pos_zero pos_zero) float_one (Vector2 x y))) y)
         \<and> (is_nan x \<longrightarrow>
               is_nan (vec_x (to_pixel (Vector2 pos_zero pos_zero) float_one (Vector2 x y))))
         \<and> (is_nan y \<longrightarrow>
               is_nan (vec_y (to_pixel (Vector2 pos_zero pos_zero) float_one (Vector2 x y))))"
proof -
  have id: "to_pixel (Vector2 pos_zero pos_zero) float_one (Vector2 x y) =
      Vector2 (if x = neg_zero then pos_zero else x) (if y = neg_zero then pos_zero else y)"
    using assms by (rule to_pixel_identity)
  have "feq (vec_x (to_pixel (Vector2 pos_zero pos_zero) float_one (Vector2 x y))) x"
    if "\<not> is_nan x"
    unfolding id using that by (simp add: feq_refl feq_zeros is_nan_def)
  moreover
  have "feq (vec_y (to_pixel (Vector2 pos_zero pos_zero) float_one (Vector2 x y))) y"
    if "\<not> is_nan y"
    unfolding id using that by (simp add: feq_refl feq_zeros is_nan_def)
  moreover
  have "is_nan (vec_x (to_pixel (Vector2 pos_zero pos_zero) float_one (Vector2 x y)))" if "is_nan x"
    unfolding id using that by (simp add: is_nan_def neg_zero_def)
  moreover
  have "is_nan (vec_y (to_pixel (Vector2 pos_zero pos_zero) float_one (Vector2 x y)))" if "is_nan y"
    unfolding id using that by (simp add: is_nan_def neg_zero_def)
  moreover
  have "vec_x (to_pixel (Vector2 pos_zero pos_zero) float_one (Vector2 x y)) =
          (if x = neg_zero then pos_zero else x)"
    "vec_y (to_pixel (Vector2 pos_zero pos_zero) float_one (Vector2 x y)) =
          (if y = neg_zero then pos_zero else y)"
    by (simp_all add: id)
  ultimately show ?thesis
    using to_pixel_components [of drawOffset drawScale x y] by blast
qed

theorem to_pixel_scale_one_offset_zero_witness:
  "is_binary32 float_one \<and> is_binary32 (Finite True 126 0)
   \<and> \<not> is_nan float_one \<and> \<not> is_nan (Finite True 126 0)
   \<and> vec_x (to_pixel (Vector2 pos_zero pos_zero) float_one (Vector2 float_one (Finite True 126 0)))
       = float_one
   \<and> vec_y (to_pixel (Vector2 pos_zero pos_zero) float_one (Vector2 float_one (Finite True 126 0)))
       = Finite True 126 0
   \<and> is_binary32 NaN \<and> is_nan NaN
   \<and> is_nan (vec_x (to_pixel (Vector2 pos_zero pos_zero) float_one (Vector2 NaN float_one)))"
proof -
  have x: "is_binary32 float_one" and y: "is_binary32 (Finite True 126 0)"
    by (simp_all add: is_binary32_consts)
  have nx: "\<not> is_nan float_one" and ny: "\<not> is_nan (Finite True 126 0)"
    by (simp_all add: is_nan_def float_one_def)
  have n: "is_binary32 NaN" and nn: "is_nan NaN"
    by (simp_all add: is_nan_def)
  note here = to_pixel_scale_one_offset_zero [OF x y, THEN conjunct2]
  from here [THEN conjunct1] nx
  have "vec_x (to_pixel (Vector2 pos_zero pos_zero) float_one (Vector2 float_one (Finite True 126 0)))
          = (if float_one = neg_zero then pos_zero else float_one)"
    by blast
  then have vx:
    "vec_x (to_pixel (Vector2 pos_zero pos_zero) float_one (Vector2 float_one (Finite True 126 0)))
          = float_one"
    by (simp only: consts_not_neg_zero if_False)
  from here [THEN conjunct2, THEN conjunct1] ny
  have "vec_y (to_pixel (Vector2 pos_zero pos_zero) float_one (Vector2 float_one (Finite True 126 0)))
          = (if Finite True 126 0 = neg_zero then pos_zero else Finite True 126 0)"
    by blast
  then have vy:
    "vec_y (to_pixel (Vector2 pos_zero pos_zero) float_one (Vector2 float_one (Finite True 126 0)))
          = Finite True 126 0"
    by (simp only: consts_not_neg_zero if_False)
  note vx vy
  moreover
  from to_pixel_scale_one_offset_zero [OF n x, THEN conjunct2, THEN conjunct2, THEN conjunct2,
    THEN conjunct1] nn
  have "is_nan (vec_x (to_pixel (Vector2 pos_zero pos_zero) float_one (Vector2 NaN float_one)))"
    by blast
  ultimately show ?thesis
    using x y nx ny n nn by blast
qed

text \<open>
  The claim as stated fails at negative zero: the sample \<open>(-0, -0)\<close> is drawn at the pixel
  \<open>(+0, +0)\<close>, which differs from it in the sign bit.
\<close>

theorem to_pixel_negative_zero_counterexample:
  "to_pixel (Vector2 pos_zero pos_zero) float_one (Vector2 neg_zero neg_zero)
     = Vector2 pos_zero pos_zero
   \<and> Vector2 pos_zero pos_zero \<noteq> Vector2 neg_zero neg_zero
   \<and> DrawVertexBuffer 2 (Vector2 pos_zero pos_zero) float_one LINE_WIDTH WHITE
        \<lparr>vertexBuffer = [Vector2 neg_zero neg_zero, Vector2 float_one float_one],
         cursor = 0, mutex = 1\<rparr>
       = Inr (\<lparr>vertexBuffer = [Vector2 neg_zero neg_zero, Vector2 float_one float_one],
               cursor = 0, mutex = 1\<rparr>,
              [rlSetLineWidth LINE_WIDTH, rlBegin_RL_LINES, rlColor4ub 255 255 255 255,
               rlVertex2f pos_zero pos_zero, rlVertex2f float_one float_one, rlEnd])"
proof -
  let ?st = "\<lparr>vertexBuffer = [Vector2 neg_zero neg_zero, Vector2 float_one float_one],
              cursor = 0, mutex = 1\<rparr>"
  have ok: "ring_ok 2 ?st"
    by (simp add: ring_ok_def INT_MAX_def)
  have free: "0 < mutex ?st"
    by simp
  have up: "[1..<2] = [1::nat]"
    by (simp add: upt_conv_Cons)
  have w: "walk_order ?st = [Vector2 neg_zero neg_zero, Vector2 float_one float_one]"
    by (simp add: walk_order_def)
  have "DrawVertexBuffer 2 (Vector2 pos_zero pos_zero) float_one LINE_WIDTH WHITE ?st =
          Inr (?st, [rlSetLineWidth LINE_WIDTH, rlBegin_RL_LINES, rlColor4ub 255 255 255 255,
                     rlVertex2f pos_zero pos_zero, rlVertex2f float_one float_one, rlEnd])"
    unfolding WHITE_def DrawVertexBuffer_out [OF ok free] up w
    by (simp add: to_pixel_identity is_binary32_consts consts_not_neg_zero)
  then show ?thesis
    by (simp add: to_pixel_identity is_binary32_consts) (simp add: pos_zero_def neg_zero_def)
qed

section \<open>The early exits of main\<close>

text \<open>
  C9: started without a positional argument, \<^verbatim>\<open>main\<close> returns 0 at once and calls
  nothing (so prints nothing and opens no window); when the stream of the given file cannot be
  loaded, it returns 0 after exactly three calls: the audio device is initialised, the load is
  tried, the audio device is closed again, and no window is ever opened.
\<close>

theorem main_exits_quietly_with_status_0:
  "(argc < 2 \<longrightarrow> main argc argv w = Some (Inr (0, [])))
   \<and> (2 \<le> argc \<and> 1 < length argv \<and> stream_buffer_null w \<longrightarrow>
        main argc argv w =
          Some (Inr (0, [InitAudioDevice, LoadMusicStream (argv ! 1), CloseAudioDevice])))"
  by (simp add: main_def)

theorem main_exits_quietly_with_status_0_witness:
  "main 1 [''vectorscope'']
      \<lparr>stream_buffer_null = False, GetMonitorWidth = 1920, GetMonitorHeight = 1080, ticks = []\<rparr>
     = Some (Inr (0, []))
   \<and> main 2 [''vectorscope'', ''missing.wav'']
      \<lparr>stream_buffer_null = True, GetMonitorWidth = 1920, GetMonitorHeight = 1080, ticks = []\<rparr>
     = Some (Inr (0, [InitAudioDevice, LoadMusicStream ''missing.wav'', CloseAudioDevice]))"
  using main_exits_quietly_with_status_0 [of 1 "[''vectorscope'']"
      "\<lparr>stream_buffer_null = False, GetMonitorWidth = 1920, GetMonitorHeight = 1080, ticks = []\<rparr>"]
    main_exits_quietly_with_status_0 [of 2 "[''vectorscope'', ''missing.wav'']"
      "\<lparr>stream_buffer_null = True, GetMonitorWidth = 1920, GetMonitorHeight = 1080, ticks = []\<rparr>"]
  by simp

section \<open>The two variants side by side\<close>

lemma append_all_append:
  "append_all N (ps @ qs) st =
     (case append_all N ps st of Inl e \<Rightarrow> Inl e | Inr st' \<Rightarrow> append_all N qs st')"
  by (induction ps arbitrary: st) (auto split: sum.splits)

lemma callback_loop_v1_append_all:
  "2 * frames \<le> length buffer \<Longrightarrow> 2 * frames \<le> INT_MAX \<Longrightarrow>
   callback_loop_v1 N buffer frames i st =
     append_all N (map (\<lambda>i. pos_of (buffer ! (2 * i)) (buffer ! (2 * i + 1))) [i..<frames]) st"
proof (induction N buffer frames i st rule: callback_loop_v1.induct)
  case (1 N buffer frames i st)
  show ?case
  proof (cases "i < frames")
    case False
    then show ?thesis
      by (simp add: callback_loop_v1.simps [of N buffer frames i st])
  next
    case True
    with "1.prems" have no: "\<not> INT_MAX < 2 * i + 1" and inb: "\<not> length buffer \<le> 2 * i + 1"
      by auto
    show ?thesis
    proof (cases "append_point N (pos_of (buffer ! (2 * i)) (buffer ! (2 * i + 1))) st")
      case (Inl e)
      with True no inb show ?thesis
        by (simp add: callback_loop_v1.simps [of N buffer frames i st] upt_conv_Cons)
    next
      case (Inr st')
      with True no inb "1.IH" [OF True no inb Inr "1.prems"] show ?thesis
        by (simp add: callback_loop_v1.simps [of N buffer frames i st] upt_conv_Cons)
    qed
  qed
qed

lemma callback_v1_append_all:
  assumes "0 < mutex st" and "2 * frames \<le> length buffer" and "2 * frames \<le> INT_MAX"
  shows "callback_v1 N buffer frames st =
           append_all N (map (\<lambda>p. pos_of (vec_x p) (vec_y p)) (frames_of buffer frames)) st"
proof -
  have m: "map (\<lambda>p. pos_of (vec_x p) (vec_y p)) (frames_of buffer frames) =
           map (\<lambda>i. pos_of (buffer ! (2 * i)) (buffer ! (2 * i + 1))) [0..<frames]"
    by (simp add: frames_of_def comp_def)
  show ?thesis
  proof (cases "append_all N (map (\<lambda>p. pos_of (vec_x p) (vec_y p)) (frames_of buffer frames)) st")
    case (Inl e)
    with assms show ?thesis
      unfolding m
      by (simp add: callback_v1_def sem_wait_def callback_loop_v1_append_all append_all_mutex)
  next
    case (Inr st')
    with assms append_all_keeps_mutex [OF Inr] show ?thesis
      unfolding m
      by (simp add: callback_v1_def sem_wait_def sem_post_def callback_loop_v1_append_all
          append_all_mutex)
  qed
qed

text \<open>All frames of a list of batches, in the order of their delivery.\<close>

lemma deliver_append_all:
  assumes "0 < mutex st"
    and "\<forall>(buffer, frames) \<in> set bs. 2 * frames \<le> length buffer \<and> frames \<le> INT_MAX"
  shows "deliver N bs st = append_all N (concat (map (\<lambda>(buffer, frames). frames_of buffer frames) bs)) st"
  using assms
proof (induction bs arbitrary: st)
  case Nil
  then show ?case by simp
next
  case (Cons b bs)
  obtain buffer frames where b: "b = (buffer, frames)"
    by (cases b)
  from Cons.prems b have cb: "callback N buffer frames st = append_all N (frames_of buffer frames) st"
    by (intro callback_append_all) auto
  show ?case
  proof (cases "append_all N (frames_of buffer frames) st")
    case (Inl e)
    with cb b show ?thesis
      by (simp add: append_all_append)
  next
    case (Inr st')
    with Cons.prems(1) append_all_keeps_mutex [OF Inr] have "0 < mutex st'"
      by simp
    from Cons.IH [OF this] Cons.prems(2) Inr cb b show ?thesis
      by (simp add: append_all_append)
  qed
qed

lemma deliver_v1_append_all:
  assumes "0 < mutex st"
    and "\<forall>(buffer, frames) \<in> set bs. 2 * frames \<le> length buffer \<and> 2 * frames \<le> INT_MAX"
  shows "deliver_v1 N bs st =
           append_all N (map (\<lambda>p. pos_of (vec_x p) (vec_y p))
             (concat (map (\<lambda>(buffer, frames). frames_of buffer frames) bs))) st"
  using assms
proof (induction bs arbitrary: st)
  case Nil
  then show ?case by simp
next
  case (Cons b bs)
  obtain buffer frames where b: "b = (buffer, frames)"
    by (cases b)
  from Cons.prems b have cb: "callback_v1 N buffer frames st =
      append_all N (map (\<lambda>p. pos_of (vec_x p) (vec_y p)) (frames_of buffer frames)) st"
    by (intro callback_v1_append_all) auto
  show ?case
  proof (cases "append_all N (map (\<lambda>p. pos_of (vec_x p) (vec_y p)) (frames_of buffer frames)) st")
    case (Inl e)
    with cb b show ?thesis
      by (simp add: append_all_append)
  next
    case (Inr st')
    with Cons.prems(1) append_all_keeps_mutex [OF Inr] have "0 < mutex st'"
      by simp
    from Cons.IH [OF this] Cons.prems(2) Inr cb b show ?thesis
      by (simp add: append_all_append)
  qed
qed

lemma length_all_frames:
  "length (concat (map (\<lambda>(buffer, frames). frames_of buffer frames) bs)) = sum_list (map snd bs)"
  by (induction bs) (auto simp: frames_of_def)

lemma pos_of_to_pixel:
  "pos_of (vec_x p) (vec_y p) =
     to_pixel (drawOffset_of WINDOW_WIDTH WINDOW_HEIGHT) (drawScale_of WINDOW_HEIGHT) p"
  by (cases p)
    (simp add: pos_of_def to_pixel_components drawOffset_of_def drawScale_of_def WINDOW_SIZE_def
      WINDOW_WIDTH_def WINDOW_HEIGHT_def fmul_commute [of "float_of_int (c_div 1024 2)"]
      fadd_commute [of "float_of_int (c_div 1024 2)"])

lemma picture_full:
  assumes "0 < N" and "N \<le> INT_MAX"
    and "\<forall>(buffer, frames) \<in> set bs. 2 * frames \<le> length buffer \<and> frames \<le> INT_MAX"
    and "N \<le> sum_list (map snd bs)"
  shows "picture N windowWidth windowHeight bs =
           Inr (polyline (map (to_pixel (drawOffset_of windowWidth windowHeight) (drawScale_of windowHeight))
                  (drop (sum_list (map snd bs) - N)
                     (concat (map (\<lambda>(buffer, frames). frames_of buffer frames) bs)))))"
proof -
  let ?ps = "concat (map (\<lambda>(buffer, frames). frames_of buffer frames) bs)"
  have free0: "0 < mutex (sem_init 1 (globals N) :: Vector2 ring)"
    by (simp add: sem_init_def)
  from append_all_from_start [OF assms(1,2), of ?ps] obtain st where
    st: "append_all N ?ps (sem_init 1 (globals N)) = Inr st" "ring_ok N st" "mutex st = 1"
      "walk_order st = drop (length ?ps) (replicate N (Vector2 pos_zero pos_zero) @ ?ps)"
    by blast
  from assms(4) st(4) have w: "walk_order st = drop (sum_list (map snd bs) - N) ?ps"
    by (simp add: length_all_frames)
  from st(3) have free: "0 < mutex st"
    by simp
  from DrawVertexBuffer_segments [OF st(2) free, of "drawOffset_of windowWidth windowHeight"
      "drawScale_of windowHeight" LINE_WIDTH WHITE]
  obtain out where out: "DrawVertexBuffer N (drawOffset_of windowWidth windowHeight)
      (drawScale_of windowHeight) LINE_WIDTH WHITE st = Inr (st, out)"
    "segments out = polyline (map (to_pixel (drawOffset_of windowWidth windowHeight)
       (drawScale_of windowHeight)) (walk_order st))"
    by blast
  show ?thesis
    unfolding picture_def deliver_append_all [OF free0 assms(3)] st(1)
    by (simp add: out w)
qed

lemma picture_v1_full:
  assumes "0 < N" and "N \<le> INT_MAX"
    and "\<forall>(buffer, frames) \<in> set bs. 2 * frames \<le> length buffer \<and> 2 * frames \<le> INT_MAX"
    and "N \<le> sum_list (map snd bs)"
  shows "picture_v1 N bs =
           Inr (polyline (map (\<lambda>p. pos_of (vec_x p) (vec_y p))
                  (drop (sum_list (map snd bs) - N)
                     (concat (map (\<lambda>(buffer, frames). frames_of buffer frames) bs)))))"
proof -
  let ?ps = "concat (map (\<lambda>(buffer, frames). frames_of buffer frames) bs)"
  let ?qs = "map (\<lambda>p. pos_of (vec_x p) (vec_y p)) ?ps"
  have free0: "0 < mutex (sem_init 1 (globals N) :: Vector2 ring)"
    by (simp add: sem_init_def)
  from append_all_from_start [OF assms(1,2), of ?qs] obtain st where
    st: "append_all N ?qs (sem_init 1 (globals N)) = Inr st" "ring_ok N st" "mutex st = 1"
      "walk_order st = drop (length ?qs) (replicate N (Vector2 pos_zero pos_zero) @ ?qs)"
    by blast
  from assms(4) st(4) have w: "walk_order st =
      map (\<lambda>p. pos_of (vec_x p) (vec_y p)) (drop (sum_list (map snd bs) - N) ?ps)"
    by (simp add: length_all_frames drop_map)
  from st(3) have free: "0 < mutex st"
    by simp
  from DrawVertexBuffer_v1_segments [OF st(2) free]
  obtain out where out: "DrawVertexBuffer_v1 N st = Inr (st, out)"
    "segments_v1 out = polyline (walk_order st)"
    by blast
  show ?thesis
    unfolding picture_v1_def deliver_v1_append_all [OF free0 assms(3)] st(1)
    by (simp add: out w)
qed

lemma half_window: "float_of_int (c_div 1024 2) = Finite False 136 0"
proof -
  have "c_div 1024 2 = 512"
    by (simp add: c_div_def)
  moreover have "(512 :: nat) * 2 ^ 149 = 2 ^ 23 * 2 ^ (136 - 1) * 2 ^ 0"
    by simp
  ultimately show ?thesis
    using round_binary32_normal [of 0 136 False 0]
    by (simp add: float_of_int_def)
qed

lemma fmul_pos_zero_finite: "fmul pos_zero (Finite False e f) = pos_zero"
  using round_binary32_subnormal [of 0 False 149]
  by (simp add: pos_zero_def ulps_def [of 0 0])

lemma centre_of_window:
  "to_pixel (drawOffset_of WINDOW_WIDTH WINDOW_HEIGHT) (drawScale_of WINDOW_HEIGHT)
     (Vector2 pos_zero pos_zero) = Vector2 (Finite False 136 0) (Finite False 136 0)"
proof -
  have "fadd pos_zero (Finite False 136 0) = Finite False 136 0"
    using fadd_pos_zero [of "Finite False 136 0"]
    by (simp add: fadd_commute [of pos_zero] neg_zero_def)
  then show ?thesis
    by (simp add: to_pixel_components drawOffset_of_def drawScale_of_def WINDOW_WIDTH_def
        WINDOW_HEIGHT_def half_window fmul_pos_zero_finite)
qed

lemma polyline_replicate: "polyline (replicate n a) = replicate (n - 1) (a, a)"
  by (simp add: polyline_def zip_replicate)

lemma picture_empty:
  assumes "0 < N" and "N \<le> INT_MAX"
  shows "picture N windowWidth windowHeight [] =
           Inr (replicate (N - 1)
             (to_pixel (drawOffset_of windowWidth windowHeight) (drawScale_of windowHeight)
                (Vector2 pos_zero pos_zero),
              to_pixel (drawOffset_of windowWidth windowHeight) (drawScale_of windowHeight)
                (Vector2 pos_zero pos_zero)))"
proof -
  have free: "0 < mutex (sem_init 1 (globals N) :: Vector2 ring)"
    by (simp add: sem_init_def)
  from DrawVertexBuffer_segments [OF ring_ok_globals [OF assms] free,
      of "drawOffset_of windowWidth windowHeight" "drawScale_of windowHeight" LINE_WIDTH WHITE]
  show ?thesis
    by (auto simp: picture_def walk_order_globals polyline_replicate)
qed

lemma picture_v1_empty:
  assumes "0 < N" and "N \<le> INT_MAX"
  shows "picture_v1 N [] =
           Inr (replicate (N - 1) (Vector2 pos_zero pos_zero, Vector2 pos_zero pos_zero))"
proof -
  have free: "0 < mutex (sem_init 1 (globals N) :: Vector2 ring)"
    by (simp add: sem_init_def)
  from DrawVertexBuffer_v1_segments [OF ring_ok_globals [OF assms] free]
  show ?thesis
    by (auto simp: picture_v1_def walk_order_globals polyline_replicate)
qed

lemma fadd_half_window_twice: "fadd (Finite False 136 0) (Finite False 136 0) = Finite False 137 0"
proof -
  have "2 * ulps 136 0 = 2 ^ 23 * 2 ^ (137 - 1) * 2 ^ 0"
    by (simp add: ulps_def)
  moreover have "ulps 136 0 \<noteq> 0"
    by (simp add: ulps_def)
  ultimately show ?thesis
    using round_binary32_normal [of 0 137 False 0]
    by (simp add: signed_ulps_def Let_def del: power_numeral_reduce)
qed

lemma fmul_float_one_left: "is_binary32 x \<Longrightarrow> fmul float_one x = x"
  by (simp add: fmul_commute [of float_one] fmul_float_one)

section \<open>Ingesting a batch of frames\<close>

lemma pos_of_one_zero:
  "pos_of float_one pos_zero = Vector2 (Finite False 137 0) (Finite False 136 0)"
proof -
  have c: "float_of_int (c_div WINDOW_SIZE 2) = Finite False 136 0"
    using half_window by (simp add: WINDOW_SIZE_def)
  have ok: "is_binary32 (Finite False 136 0)"
    by simp
  have x: "fadd (Finite False 136 0) (fmul (Finite False 136 0) float_one) = Finite False 137 0"
    by (simp only: fmul_float_one [OF ok] fadd_half_window_twice)
  have "fadd (Finite False 136 0) pos_zero = Finite False 136 0"
    using fadd_pos_zero [OF ok] by (simp add: neg_zero_def)
  then have y: "fadd (Finite False 136 0) (fmul (Finite False 136 0) pos_zero) = Finite False 136 0"
    by (simp only: fmul_commute [of "Finite False 136 0" pos_zero] fmul_pos_zero_finite)
  show ?thesis
    unfolding pos_of_def c x y ..
qed

lemma callback_loop_counter_overflows:
  "ring_ok N st \<Longrightarrow> i \<le> INT_MAX \<Longrightarrow> INT_MAX < frames \<Longrightarrow> 2 * frames \<le> length buffer \<Longrightarrow>
   callback_loop N buffer frames i st = Inl SignedOverflow"
proof (induction N buffer frames i st rule: callback_loop.induct)
  case (1 N buffer frames i st)
  from "1.prems" have lt: "i < frames"
    by simp
  with "1.prems" have fr: "frame_at buffer i = Inr (Vector2 (buffer ! (2 * i)) (buffer ! (2 * i + 1)))"
    by (simp add: frame_at_def)
  from walk_order_append_point [OF "1.prems"(1), of "Vector2 (buffer ! (2 * i)) (buffer ! (2 * i + 1))"]
  obtain st' where st': "append_point N (Vector2 (buffer ! (2 * i)) (buffer ! (2 * i + 1))) st = Inr st'"
    "ring_ok N st'"
    by blast
  show ?case
  proof (cases "i = INT_MAX")
    case True
    with lt fr st' show ?thesis
      by (subst callback_loop.simps) simp
  next
    case False
    with "1.prems" have "i + 1 \<le> INT_MAX"
      by simp
    from "1.IH" [OF lt fr st'(1) False st'(2) this "1.prems"(3,4)] lt fr st' False show ?thesis
      by (subst callback_loop.simps) simp
  qed
qed

text \<open>
  C6, as amended: when the semaphore is free, the buffer holds at least \<open>frames\<close> stereo frames
  and \<open>frames\<close> is within the range of the \<^verbatim>\<open>int\<close> loop counter, one call of the
  \<^verbatim>\<open>callback\<close> of \<^verbatim>\<open>main.c\<close> is exactly the run of \<open>frames\<close> appends of the points
  \<open>(buffer[2 i], buffer[2 i + 1])\<close> for \<open>i = 0, \<dots>, frames - 1\<close>, in this order. The
  \<^verbatim>\<open>callback\<close> of the older variant, when \<open>2 * frames\<close> is within the range of its
  \<^verbatim>\<open>int\<close> index, makes the same number of appends in the same order, but its \<open>i\<close>-th
  point is the pixel position
  \<open>(512 + 512 * buffer[2 i], 512 + 512 * buffer[2 i + 1])\<close>. On a well-formed ring either
  callback returns, and its whole effect is the new ring (the semaphore is free again).
\<close>

theorem callbacks_append_each_frame_in_order:
  assumes "ring_ok N st" and "0 < mutex st"
    and "2 * frames \<le> length buffer" and "frames \<le> INT_MAX"
  shows "callback N buffer frames st = append_all N (frames_of buffer frames) st
         \<and> length (frames_of buffer frames) = frames
         \<and> (\<forall>i<frames. frames_of buffer frames ! i = Vector2 (buffer ! (2 * i)) (buffer ! (2 * i + 1)))
         \<and> (\<exists>st'. callback N buffer frames st = Inr st' \<and> ring_ok N st' \<and> mutex st' = mutex st
               \<and> walk_order st' = drop frames (walk_order st @ frames_of buffer frames))
         \<and> (2 * frames \<le> INT_MAX \<longrightarrow>
               callback_v1 N buffer frames st =
                 append_all N (map (\<lambda>p. pos_of (vec_x p) (vec_y p)) (frames_of buffer frames)) st
               \<and> (\<forall>i<frames. map (\<lambda>p. pos_of (vec_x p) (vec_y p)) (frames_of buffer frames) ! i
                      = pos_of (buffer ! (2 * i)) (buffer ! (2 * i + 1)))
               \<and> (\<exists>st'. callback_v1 N buffer frames st = Inr st' \<and> ring_ok N st'
                     \<and> mutex st' = mutex st
                     \<and> walk_order st' =
                         drop frames (walk_order st
                           @ map (\<lambda>p. pos_of (vec_x p) (vec_y p)) (frames_of buffer frames))))"
proof -
  let ?pix = "map (\<lambda>p. pos_of (vec_x p) (vec_y p)) (frames_of buffer frames)"
  have len: "length (frames_of buffer frames) = frames"
    by (simp add: frames_of_def)
  have eq: "callback N buffer frames st = append_all N (frames_of buffer frames) st"
    using assms(2-4) by (rule callback_append_all)
  from append_all_walk_order [OF assms(1), of "frames_of buffer frames"] len eq
  have ret: "\<exists>st'. callback N buffer frames st = Inr st' \<and> ring_ok N st' \<and> mutex st' = mutex st
               \<and> walk_order st' = drop frames (walk_order st @ frames_of buffer frames)"
    by auto
  have nth: "\<forall>i<frames. frames_of buffer frames ! i = Vector2 (buffer ! (2 * i)) (buffer ! (2 * i + 1))"
    by (simp add: frames_of_def)
  have old: "callback_v1 N buffer frames st = append_all N ?pix st
      \<and> (\<forall>i<frames. ?pix ! i = pos_of (buffer ! (2 * i)) (buffer ! (2 * i + 1)))
      \<and> (\<exists>st'. callback_v1 N buffer frames st = Inr st' \<and> ring_ok N st' \<and> mutex st' = mutex st
            \<and> walk_order st' = drop frames (walk_order st @ ?pix))"
    if small: "2 * frames \<le> INT_MAX"
  proof -
    have eq1: "callback_v1 N buffer frames st = append_all N ?pix st"
      using assms(2,3) small by (rule callback_v1_append_all)
    have len1: "length ?pix = frames"
      by (simp add: len)
    from append_all_walk_order [OF assms(1), of ?pix] len1 eq1
    have "\<exists>st'. callback_v1 N buffer frames st = Inr st' \<and> ring_ok N st' \<and> mutex st' = mutex st
            \<and> walk_order st' = drop frames (walk_order st @ ?pix)"
      by auto
    moreover have "\<forall>i<frames. ?pix ! i = pos_of (buffer ! (2 * i)) (buffer ! (2 * i + 1))"
      by (simp add: frames_of_def)
    ultimately show ?thesis
      using eq1 by blast
  qed
  from eq len nth ret old show ?thesis
    by blast
qed

theorem callbacks_append_each_frame_in_order_witness:
  "ring_ok 2 (sem_init 1 (globals 2))
   \<and> 0 < mutex (sem_init 1 (globals 2))
   \<and> 2 * 3 \<le> length [float_one, pos_zero, pos_zero, float_one, fneg float_one, pos_zero]
   \<and> 3 \<le> INT_MAX \<and> 2 * 3 \<le> INT_MAX
   \<and> callback 2 [float_one, pos_zero, pos_zero, float_one, fneg float_one, pos_zero] 3
         (sem_init 1 (globals 2))
       = Inr \<lparr>vertexBuffer = [Vector2 (fneg float_one) pos_zero, Vector2 pos_zero float_one],
              cursor = 1, mutex = 1\<rparr>
   \<and> callback_v1 2 [float_one, pos_zero, pos_zero, float_one, fneg float_one, pos_zero] 3
         (sem_init 1 (globals 2))
       = Inr \<lparr>vertexBuffer = [pos_of (fneg float_one) pos_zero, pos_of pos_zero float_one],
              cursor = 1, mutex = 1\<rparr>"
proof -
  let ?buffer = "[float_one, pos_zero, pos_zero, float_one, fneg float_one, pos_zero]"
  have ok: "ring_ok 2 (sem_init 1 (globals 2))"
    by (simp add: ring_ok_def INT_MAX_def sem_init_def globals_def)
  have free: "0 < mutex (sem_init 1 (globals 2))"
    by (simp add: sem_init_def)
  have len: "2 * 3 \<le> length ?buffer"
    by simp
  have small: "3 \<le> INT_MAX" and small2: "2 * 3 \<le> INT_MAX"
    by (simp_all add: INT_MAX_def)
  have fr: "frames_of ?buffer 3 =
          [Vector2 float_one pos_zero, Vector2 pos_zero float_one, Vector2 (fneg float_one) pos_zero]"
    by (simp add: frames_of_def upt_conv_Cons)
  note both = callbacks_append_each_frame_in_order [OF ok free len small]
  from both [THEN conjunct1] fr
  have new: "callback 2 ?buffer 3 (sem_init 1 (globals 2)) =
          Inr \<lparr>vertexBuffer = [Vector2 (fneg float_one) pos_zero, Vector2 pos_zero float_one],
               cursor = 1, mutex = 1\<rparr>"
    by (simp add: append_point_def sem_init_def globals_2)
  from both small2 have "callback_v1 2 ?buffer 3 (sem_init 1 (globals 2)) =
      append_all 2 (map (\<lambda>p. pos_of (vec_x p) (vec_y p)) (frames_of ?buffer 3)) (sem_init 1 (globals 2))"
    by blast
  with fr have old: "callback_v1 2 ?buffer 3 (sem_init 1 (globals 2)) =
          Inr \<lparr>vertexBuffer = [pos_of (fneg float_one) pos_zero, pos_of pos_zero float_one],
               cursor = 1, mutex = 1\<rparr>"
    by (simp add: append_point_def sem_init_def globals_2)
  from ok free len small small2 new old show ?thesis
    by blast
qed

text \<open>
  The claim as stated fails for the older variant, whose callback does not append the pair: the
  frame \<open>(1, 0)\<close> is appended as the pixel position \<open>(1024, 512)\<close>. It also fails beyond the
  range of the loop counter: with \<open>2 ^ 31\<close> frames the counter of \<^verbatim>\<open>callback\<close> is incremented
  past \<^verbatim>\<open>INT_MAX\<close>, which C leaves undefined.
\<close>

theorem callback_v1_appends_pixels_counterexample:
  "callback_v1 2 [float_one, pos_zero] 1 (sem_init 1 (globals 2))
     = Inr \<lparr>vertexBuffer = [Vector2 (Finite False 137 0) (Finite False 136 0),
                             Vector2 pos_zero pos_zero],
            cursor = 1, mutex = 1\<rparr>
   \<and> append_all 2 [Vector2 float_one pos_zero] (sem_init 1 (globals 2))
     = Inr \<lparr>vertexBuffer = [Vector2 float_one pos_zero, Vector2 pos_zero pos_zero],
            cursor = 1, mutex = 1\<rparr>
   \<and> Vector2 (Finite False 137 0) (Finite False 136 0) \<noteq> Vector2 float_one pos_zero
   \<and> callback VERTEX_BUFFER_SIZE (replicate (2 ^ 32) pos_zero) (2 ^ 31)
         (sem_init 1 (globals VERTEX_BUFFER_SIZE))
     = Inl SignedOverflow"
proof -
  have free: "0 < mutex (sem_init 1 (globals 2) :: Vector2 ring)"
    by (simp add: sem_init_def)
  have "frames_of [float_one, pos_zero] 1 = [Vector2 float_one pos_zero]"
    by (simp add: frames_of_def)
  with callback_v1_append_all [OF free, of 1 "[float_one, pos_zero]" 2]
  have old: "callback_v1 2 [float_one, pos_zero] 1 (sem_init 1 (globals 2))
     = Inr \<lparr>vertexBuffer = [Vector2 (Finite False 137 0) (Finite False 136 0),
                             Vector2 pos_zero pos_zero],
            cursor = 1, mutex = 1\<rparr>"
    by (simp add: INT_MAX_def append_point_def sem_init_def globals_2 pos_of_one_zero)
  have pair: "append_all 2 [Vector2 float_one pos_zero] (sem_init 1 (globals 2))
     = Inr \<lparr>vertexBuffer = [Vector2 float_one pos_zero, Vector2 pos_zero pos_zero],
            cursor = 1, mutex = 1\<rparr>"
    by (simp add: append_point_def sem_init_def globals_2)
  have differ: "Vector2 (Finite False 137 0) (Finite False 136 0) \<noteq> Vector2 float_one pos_zero"
    by (simp add: float_one_def)
  have ok: "ring_ok VERTEX_BUFFER_SIZE
      ((sem_init 1 (globals VERTEX_BUFFER_SIZE))\<lparr>mutex := 0\<rparr>)"
    by (simp add: ring_ok_def sem_init_def globals_def VERTEX_BUFFER_SIZE_def INT_MAX_def)
  have "callback_loop VERTEX_BUFFER_SIZE (replicate (2 ^ 32) pos_zero) (2 ^ 31) 0
      ((sem_init 1 (globals VERTEX_BUFFER_SIZE))\<lparr>mutex := 0\<rparr>) = Inl SignedOverflow"
    by (rule callback_loop_counter_overflows [OF ok]) (simp_all add: INT_MAX_def)
  then have over: "callback VERTEX_BUFFER_SIZE (replicate (2 ^ 32) pos_zero) (2 ^ 31)
      (sem_init 1 (globals VERTEX_BUFFER_SIZE)) = Inl SignedOverflow"
    by (simp add: callback_def sem_wait_def sem_init_def)
  from old pair differ over show ?thesis
    by blast
qed

text \<open>
  C10, as amended: once at least \<open>N\<close> frames have been ingested (every slot of the ring has
  been written), a snapshot of the older variant and a snapshot of the current variant in a
  window of the default size draw the same \<open>N - 1\<close> segments, for every sequence of batches
  that fit the loop counters of both callbacks.
\<close>

theorem variants_draw_the_same_once_ring_is_filled:
  assumes "0 < N" and "N \<le> INT_MAX"
    and "\<forall>(buffer, frames) \<in> set bs. 2 * frames \<le> length buffer \<and> 2 * frames \<le> INT_MAX"
    and "N \<le> sum_list (map snd bs)"
  shows "picture_v1 N bs = picture N WINDOW_WIDTH WINDOW_HEIGHT bs
         \<and> (\<exists>segs. picture N WINDOW_WIDTH WINDOW_HEIGHT bs = Inr segs \<and> length segs = N - 1)"
proof -
  from assms(3) have fit: "\<forall>(buffer, frames) \<in> set bs. 2 * frames \<le> length buffer \<and> frames \<le> INT_MAX"
    by auto
  have "length (drop (sum_list (map snd bs) - N)
          (concat (map (\<lambda>(buffer, frames). frames_of buffer frames) bs))) = N"
    using assms(4) by (simp add: length_all_frames)
  then show ?thesis
    unfolding picture_v1_full [OF assms] picture_full [OF assms(1,2) fit assms(4)]
    by (simp add: pos_of_to_pixel length_polyline)
qed

theorem variants_draw_the_same_once_ring_is_filled_witness:
  "0 < (2::nat) \<and> 2 \<le> INT_MAX
   \<and> 2 * 2 \<le> length [float_one, pos_zero, pos_zero, float_one] \<and> 2 * 2 \<le> INT_MAX
   \<and> 2 \<le> sum_list (map snd [([float_one, pos_zero, pos_zero, float_one], 2::nat)])
   \<and> picture_v1 2 [([float_one, pos_zero, pos_zero, float_one], 2)]
       = picture 2 WINDOW_WIDTH WINDOW_HEIGHT [([float_one, pos_zero, pos_zero, float_one], 2)]
   \<and> picture 2 WINDOW_WIDTH WINDOW_HEIGHT [([float_one, pos_zero, pos_zero, float_one], 2)]
       = Inr [(Vector2 (Finite False 137 0) (Finite False 136 0),
               Vector2 (Finite False 136 0) (Finite False 137 0))]"
proof -
  let ?bs = "[([float_one, pos_zero, pos_zero, float_one], 2::nat)]"
  have pos: "0 < (2::nat)"
    by simp
  have small: "2 \<le> INT_MAX" "2 * 2 \<le> INT_MAX"
    by (simp_all add: INT_MAX_def)
  have fit: "\<forall>(buffer, frames) \<in> set ?bs. 2 * frames \<le> length buffer \<and> 2 * frames \<le> INT_MAX"
    using small by simp
  have fit': "\<forall>(buffer, frames) \<in> set ?bs. 2 * frames \<le> length buffer \<and> frames \<le> INT_MAX"
    using small by simp
  have full: "2 \<le> sum_list (map snd ?bs)"
    by simp
  have fr: "frames_of [float_one, pos_zero, pos_zero, float_one] 2 =
              [Vector2 float_one pos_zero, Vector2 pos_zero float_one]"
    by (simp add: frames_of_def upt_conv_Cons)
  have "is_binary32 (Finite False 136 0)"
    by simp
  then have px1: "fadd (fmul float_one (Finite False 136 0)) (Finite False 136 0) = Finite False 137 0"
    by (simp only: fmul_float_one_left fadd_half_window_twice)
  have "fadd (Finite False 136 0) pos_zero = Finite False 136 0"
    using fadd_pos_zero [of "Finite False 136 0"] by (simp add: neg_zero_def)
  then have px2: "fadd (fmul pos_zero (Finite False 136 0)) (Finite False 136 0) = Finite False 136 0"
    by (simp only: fmul_pos_zero_finite fadd_commute [of pos_zero])
  note px = px1 px2
  have "picture 2 WINDOW_WIDTH WINDOW_HEIGHT ?bs =
          Inr [(Vector2 (Finite False 137 0) (Finite False 136 0),
                Vector2 (Finite False 136 0) (Finite False 137 0))]"
    unfolding picture_full [OF pos small(1) fit' full]
    by (simp add: fr polyline_def to_pixel_components drawOffset_of_def drawScale_of_def
        WINDOW_WIDTH_def WINDOW_HEIGHT_def half_window px)
  with variants_draw_the_same_once_ring_is_filled [OF pos small(1) fit full] pos small full
  show ?thesis
    by simp
qed

text \<open>
  The claim as stated fails before the ring is filled: with no frame ingested yet, the older
  variant draws its 2047 segments at the pixel \<open>(0, 0)\<close>, the corner of the window, and the
  current variant draws them at \<open>(512, 512)\<close>, its centre.
\<close>

theorem variants_differ_on_unwritten_slots_counterexample:
  "picture_v1 VERTEX_BUFFER_SIZE [] =
     Inr (replicate 2047 (Vector2 pos_zero pos_zero, Vector2 pos_zero pos_zero))
   \<and> picture VERTEX_BUFFER_SIZE WINDOW_WIDTH WINDOW_HEIGHT [] =
     Inr (replicate 2047 (Vector2 (float_of_int 512) (float_of_int 512),
                          Vector2 (float_of_int 512) (float_of_int 512)))
   \<and> picture_v1 VERTEX_BUFFER_SIZE [] \<noteq> picture VERTEX_BUFFER_SIZE WINDOW_WIDTH WINDOW_HEIGHT []"
proof -
  have pos: "0 < VERTEX_BUFFER_SIZE" and small: "VERTEX_BUFFER_SIZE \<le> INT_MAX"
    by (simp_all add: VERTEX_BUFFER_SIZE_def INT_MAX_def)
  have n: "VERTEX_BUFFER_SIZE - 1 = 2047"
    by (simp add: VERTEX_BUFFER_SIZE_def)
  have c: "float_of_int 512 = Finite False 136 0"
    using half_window by (simp add: c_div_def)
  show ?thesis
    unfolding picture_v1_empty [OF pos small] picture_empty [OF pos small] n centre_of_window c
    by (simp add: pos_zero_def)
qed

section \<open>The semaphore keeps the threads apart\<close>

lemma unlocked_simps:
  "vertexBuffer (unlocked r) = vertexBuffer r" "cursor (unlocked r) = cursor r"
  "mutex (unlocked r) = 1" "unlocked (r\<lparr>mutex := m\<rparr>) = unlocked r"
  "unlocked (sem_post r) = unlocked r"
  by (simp_all add: unlocked_def sem_post_def)

lemma unlocked_free: "mutex r = 1 \<Longrightarrow> unlocked r = r"
  by (simp add: unlocked_def)

lemma boot_inv:
  assumes "0 < N" and "N \<le> INT_MAX"
  shows "lock_inv N (boot N) \<and> audio_inv N (boot N) \<and> display_inv N (boot N) \<and> walks_inv N (boot N)"
  using ring_ok_globals [OF assms]
  by (simp add: lock_inv_def audio_inv_def display_inv_def walks_inv_def boot_def unlocked_def
      sem_init_def)

lemma audio_call_inv:
  assumes "lock_inv N s" and "audio_inv N s" and "display_inv N s" and "walks_inv N s"
    and "audio_call buffer frames s = Some s'"
  shows "lock_inv N s' \<and> audio_inv N s' \<and> display_inv N s' \<and> walks_inv N s'"
proof -
  from assms(5) have idle: "audio_thread s = Audio_idle" and free: "mutex (shared s) \<noteq> 0"
    and s': "s' = s\<lparr>shared := (shared s)\<lparr>mutex := mutex (shared s) - 1\<rparr>,
                     audio_thread := Audio_test buffer frames 0\<rparr>"
    by (auto simp: audio_call_def sem_wait_def split: audio_pc.splits if_splits)
  from assms(1) idle free have d: "display_thread s = Display_idle"
    by (auto simp: lock_inv_def split: if_splits)
  from assms(1) idle d have "lock_inv N s'"
    by (simp add: s' lock_inv_def ring_ok_def)
  moreover from assms(2) idle have "audio_inv N s'"
    by (simp add: s' audio_inv_def unlocked_simps)
  moreover from assms(3) d have "display_inv N s'"
    by (simp add: s' display_inv_def)
  moreover from assms(4) have "walks_inv N s'"
    by (simp add: s' walks_inv_def)
  ultimately show ?thesis
    by blast
qed


lemma walks_inv_grow:
  assumes "walks_inv N s" and "walks s' = walks s" and "completed s' = completed s @ new"
  shows "walks_inv N s'"
  unfolding walks_inv_def
proof (intro ballI conjI)
  fix w
  assume "w \<in> set (walks s')"
  with assms(2) have w: "w \<in> set (walks s)"
    by simp
  with assms(1) show "DrawVertexBuffer N (at_offset w) (at_scale w) (at_width w) (at_color w)
      (snapshot w) = Inr (snapshot w, drawn w)"
    by (simp add: walks_inv_def)
  from assms(1) w obtain ps qs where "completed s = ps @ qs"
    "append_all N ps (sem_init 1 (globals N)) = Inr (snapshot w)"
    unfolding walks_inv_def by blast
  with assms(3) have "completed s' = ps @ (qs @ new)
      \<and> append_all N ps (sem_init 1 (globals N)) = Inr (snapshot w)"
    by simp
  then show "\<exists>ps qs. completed s' = ps @ qs
      \<and> append_all N ps (sem_init 1 (globals N)) = Inr (snapshot w)"
    by blast
qed

lemma append_point_from_slot:
  assumes "ring_ok N R"
  shows "append_point N p R =
           Inr (R\<lparr>vertexBuffer := (vertexBuffer R)[cursor R := p],
                  cursor := ((cursor R + 1) mod 2 ^ 32) mod N\<rparr>)"
  using assms by (simp add: append_point_def ring_ok_def)

lemma audio_step_inv:
  assumes "lock_inv N s" and "audio_inv N s" and "display_inv N s" and "walks_inv N s"
    and "audio_step N s = Some s'"
  shows "lock_inv N s' \<and> audio_inv N s' \<and> display_inv N s' \<and> walks_inv N s'"
proof (cases "audio_thread s")
  case Audio_idle
  with assms(5) show ?thesis
    by (simp add: audio_step_def)
next
  case (Audio_test buffer frames i)
  with assms(1) have d: "display_thread s = Display_idle"
    by (auto simp: lock_inv_def)
  show ?thesis
  proof (cases "i < frames")
    case True
    with assms(5) Audio_test obtain p where p: "frame_at buffer i = Inr p"
      and s': "s' = s\<lparr>shared := (shared s)
                          \<lparr>vertexBuffer := (vertexBuffer (shared s))[cursor (shared s) := p]\<rparr>,
                       audio_thread := Audio_stored buffer frames i\<rparr>"
      by (auto simp: audio_step_def split: sum.splits if_splits)
    from assms(1) Audio_test d have "lock_inv N s'"
      by (simp add: s' lock_inv_def ring_ok_def)
    moreover from assms(2) Audio_test p have "audio_inv N s'"
      by (simp add: s' audio_inv_def unlocked_def)
    moreover from assms(3) d have "display_inv N s'"
      by (simp add: s' display_inv_def)
    moreover from assms(4) have "walks_inv N s'"
      by (simp add: s' walks_inv_def)
    ultimately show ?thesis
      by blast
  next
    case False
    with assms(5) Audio_test have
      s': "s' = s\<lparr>shared := sem_post (shared s), audio_thread := Audio_idle\<rparr>"
      by (simp add: audio_step_def)
    from assms(1) Audio_test d have "lock_inv N s'"
      by (simp add: s' lock_inv_def ring_ok_def sem_post_def)
    moreover from assms(2) Audio_test have "audio_inv N s'"
      by (simp add: s' audio_inv_def unlocked_simps)
    moreover from assms(3) d have "display_inv N s'"
      by (simp add: s' display_inv_def)
    moreover from assms(4) have "walks_inv N s'"
      by (simp add: s' walks_inv_def)
    ultimately show ?thesis
      by blast
  qed
next
  case (Audio_stored buffer frames i)
  with assms(1) have d: "display_thread s = Display_idle"
    by (auto simp: lock_inv_def)
  from assms(2) Audio_stored obtain p R where p: "frame_at buffer i = Inr p"
    and R: "append_all N (completed s) (sem_init 1 (globals N)) = Inr R"
    and sh: "unlocked (shared s) = R\<lparr>vertexBuffer := (vertexBuffer R)[cursor R := p]\<rparr>"
    by (auto simp: audio_inv_def)
  from assms(5) Audio_stored p have
    s': "s' = s\<lparr>shared := (shared s)\<lparr>cursor := ((cursor (shared s) + 1) mod 2 ^ 32) mod N\<rparr>,
                     audio_thread := Audio_test buffer frames (i + 1),
                     completed := completed s @ [p]\<rparr>"
    by (auto simp: audio_step_def split: if_splits)
  from assms(1) have ok: "ring_ok N (shared s)"
    by (simp add: lock_inv_def)
  from sh have c: "cursor (shared s) = cursor R" and l: "length (vertexBuffer (shared s)) = length (vertexBuffer R)"
    by (metis unlocked_simps(2) ring.select_convs(2) ring.surjective ring.update_convs(1),
        metis unlocked_simps(1) length_list_update ring.select_convs(1) ring.surjective
          ring.update_convs(1))
  from ok c l have okR: "ring_ok N R"
    by (simp add: ring_ok_def)
  have "unlocked ((shared s)\<lparr>cursor := ((cursor (shared s) + 1) mod 2 ^ 32) mod N\<rparr>) =
          (unlocked (shared s))\<lparr>cursor := ((cursor R + 1) mod 2 ^ 32) mod N\<rparr>"
    by (simp add: unlocked_def c)
  with R append_point_from_slot [OF okR, of p]
  have "append_all N (completed s @ [p]) (sem_init 1 (globals N)) =
          Inr (unlocked ((shared s)\<lparr>cursor := ((cursor (shared s) + 1) mod 2 ^ 32) mod N\<rparr>))"
    by (simp add: append_all_append sh)
  then have "audio_inv N s'"
    by (simp add: s' audio_inv_def)
  moreover from assms(1) Audio_stored d have "lock_inv N s'"
    by (simp add: s' lock_inv_def ring_ok_def)
  moreover from assms(3) d have "display_inv N s'"
    by (simp add: s' display_inv_def)
  moreover from assms(4) have "walks_inv N s'"
    by (rule walks_inv_grow [where new = "[p]"]) (simp_all add: s')
  ultimately show ?thesis
    by blast
qed


lemma display_call_inv:
  assumes "lock_inv N s" and "audio_inv N s" and "display_inv N s" and "walks_inv N s"
    and "display_call drawOffset drawScale lineWidth color s = Some s'"
  shows "lock_inv N s' \<and> audio_inv N s' \<and> display_inv N s' \<and> walks_inv N s'"
proof -
  from assms(5) have idle: "display_thread s = Display_idle" and free: "mutex (shared s) \<noteq> 0"
    and s': "s' = s\<lparr>shared := (shared s)\<lparr>mutex := mutex (shared s) - 1\<rparr>,
                     display_thread := Display_entered drawOffset drawScale lineWidth color,
                     acquired := shared s, seen := completed s\<rparr>"
    by (auto simp: display_call_def sem_wait_def split: display_pc.splits if_splits)
  from assms(1) idle free have a: "audio_thread s = Audio_idle" and one: "mutex (shared s) = 1"
    by (auto simp: lock_inv_def split: if_splits)
  from assms(1) idle a have "lock_inv N s'"
    by (simp add: s' lock_inv_def ring_ok_def)
  moreover from assms(2) a have "audio_inv N s'"
    by (simp add: s' audio_inv_def unlocked_simps)
  moreover from assms(2) a one have "display_inv N s'"
    by (simp add: s' display_inv_def audio_inv_def unlocked_simps unlocked_free)
  moreover from assms(4) have "walks_inv N s'"
    by (simp add: s' walks_inv_def)
  ultimately show ?thesis
    by blast
qed

lemma draw_loop_mutex:
  "draw_loop N drawOffset drawScale (st\<lparr>mutex := m\<rparr>) i begin_pt out =
     draw_loop N drawOffset drawScale st i begin_pt out"
proof (induction N drawOffset drawScale st i begin_pt out rule: draw_loop.induct)
  case (1 N drawOffset drawScale st i begin_pt out)
  show ?case
  proof (cases "i < N \<and> ((cursor st + i) mod 2 ^ 32) mod N < length (vertexBuffer st)")
    case True
    with "1.IH" [OF _ refl _ refl] show ?thesis
      by (subst (1 2) draw_loop.simps) (simp add: Let_def)
  next
    case False
    then show ?thesis
      by (subst (1 2) draw_loop.simps) (auto simp: Let_def)
  qed
qed

lemma display_step_inv:
  assumes "lock_inv N s" and "audio_inv N s" and "display_inv N s" and "walks_inv N s"
    and "display_step N s = Some s'"
  shows "lock_inv N s' \<and> audio_inv N s' \<and> display_inv N s' \<and> walks_inv N s'"
proof (cases "display_thread s")
  case Display_idle
  with assms(5) show ?thesis
    by (simp add: display_step_def)
next
  case (Display_entered drawOffset drawScale lineWidth color)
  obtain r g b a where col: "color = Color r g b a"
    by (cases color)
  from assms(1) Display_entered have a: "audio_thread s = Audio_idle"
    by (auto simp: lock_inv_def)
  from assms(5) Display_entered col have
    s': "s' = s\<lparr>display_thread :=
           Display_loop drawOffset drawScale lineWidth color 1
             (to_pixel drawOffset drawScale (vertexBuffer (shared s) ! cursor (shared s)))
             [rlSetLineWidth lineWidth, rlBegin_RL_LINES, rlColor4ub r g b a]\<rparr>"
    by (auto simp: display_step_def split: if_splits)
  from assms(1) Display_entered have "lock_inv N s'"
    by (simp add: s' lock_inv_def)
  moreover from assms(2) a have "audio_inv N s'"
    by (simp add: s' audio_inv_def)
  moreover from assms(3) Display_entered have "display_inv N s'"
    by (simp add: s' display_inv_def col)
  moreover from assms(4) have "walks_inv N s'"
    by (simp add: s' walks_inv_def)
  ultimately show ?thesis
    by blast
next
  case (Display_loop drawOffset drawScale lineWidth color i begin_pt out)
  obtain r g b a where col: "color = Color r g b a"
    by (cases color)
  from assms(1) Display_loop have a: "audio_thread s = Audio_idle"
    and zero: "mutex (shared s) = 0" and ok: "ring_ok N (shared s)"
    by (auto simp: lock_inv_def)
  from assms(3) Display_loop col have acq: "unlocked (shared s) = acquired s"
    and same: "completed s = seen s"
    and snap: "append_all N (seen s) (sem_init 1 (globals N)) = Inr (acquired s)"
    and rest: "draw_loop N drawOffset drawScale (shared s) i begin_pt out =
               draw_loop N drawOffset drawScale (shared s) 1
                 (to_pixel drawOffset drawScale (vertexBuffer (shared s) ! cursor (shared s)))
                 [rlSetLineWidth lineWidth, rlBegin_RL_LINES, rlColor4ub r g b a]"
    by (simp_all add: display_inv_def)
  show ?thesis
  proof (cases "i < N")
    case True
    let ?k = "((cursor (shared s) + i) mod 2 ^ 32) mod N"
    let ?e = "to_pixel drawOffset drawScale (vertexBuffer (shared s) ! ?k)"
    let ?out = "out @ [rlVertex2f (vec_x begin_pt) (vec_y begin_pt), rlVertex2f (vec_x ?e) (vec_y ?e)]"
    from ok have k: "?k < length (vertexBuffer (shared s))"
      by (simp add: ring_ok_def)
    with assms(5) Display_loop True have
      s': "s' = s\<lparr>display_thread :=
             Display_loop drawOffset drawScale lineWidth color (i + 1) ?e ?out\<rparr>"
      by (simp add: display_step_def Let_def)
    from True k have "draw_loop N drawOffset drawScale (shared s) i begin_pt out =
        draw_loop N drawOffset drawScale (shared s) (i + 1) ?e ?out"
      by (subst draw_loop.simps) (simp add: Let_def)
    with rest acq same snap have "display_inv N s'"
      by (simp add: s' display_inv_def col)
    moreover from assms(1) Display_loop have "lock_inv N s'"
      by (simp add: s' lock_inv_def)
    moreover from assms(2) a have "audio_inv N s'"
      by (simp add: s' audio_inv_def)
    moreover from assms(4) have "walks_inv N s'"
      by (simp add: s' walks_inv_def)
    ultimately show ?thesis
      by blast
  next
    case False
    let ?w = "\<lparr>at_offset = drawOffset, at_scale = drawScale, at_width = lineWidth,
               at_color = color, snapshot = acquired s, drawn = out @ [rlEnd]\<rparr>"
    from assms(5) Display_loop False have
      s': "s' = s\<lparr>shared := sem_post (shared s), display_thread := Display_idle,
                       walks := walks s @ [?w]\<rparr>"
      by (simp add: display_step_def)
    from False have "draw_loop N drawOffset drawScale (shared s) i begin_pt out = Inr out"
      by (subst draw_loop.simps) simp
    with rest have whole: "draw_loop N drawOffset drawScale (shared s) 1
        (to_pixel drawOffset drawScale (vertexBuffer (shared s) ! cursor (shared s)))
        [rlSetLineWidth lineWidth, rlBegin_RL_LINES, rlColor4ub r g b a] = Inr out"
      by simp
    from acq have vb: "vertexBuffer (shared s) = vertexBuffer (acquired s)"
      and cu: "cursor (shared s) = cursor (acquired s)" and one: "mutex (acquired s) = 1"
      using unlocked_simps(1-3) [of "shared s"] by simp_all
    from ok vb cu have c: "cursor (acquired s) < length (vertexBuffer (acquired s))"
      by (simp add: ring_ok_def)
    have "draw_loop N drawOffset drawScale (unlocked (shared s)) 1
        (to_pixel drawOffset drawScale (vertexBuffer (shared s) ! cursor (shared s)))
        [rlSetLineWidth lineWidth, rlBegin_RL_LINES, rlColor4ub r g b a] = Inr out"
      unfolding unlocked_def draw_loop_mutex by (rule whole)
    then have whole': "draw_loop N drawOffset drawScale (acquired s) 1
        (to_pixel drawOffset drawScale (vertexBuffer (acquired s) ! cursor (acquired s)))
        [rlSetLineWidth lineWidth, rlBegin_RL_LINES, rlColor4ub r g b a] = Inr out"
      unfolding acq vb cu .
    from one have post: "sem_post ((acquired s)\<lparr>mutex := 0\<rparr>) = acquired s"
      by (simp add: sem_post_def)
    from one c whole' post have draw: "DrawVertexBuffer N drawOffset drawScale lineWidth color (acquired s) =
        Inr (acquired s, out @ [rlEnd])"
      by (simp add: DrawVertexBuffer_def sem_wait_def col draw_loop_mutex)
    from snap same have "completed s = seen s @ []
        \<and> append_all N (seen s) (sem_init 1 (globals N)) = Inr (acquired s)"
      by simp
    then have "\<exists>ps qs. completed s = ps @ qs
        \<and> append_all N ps (sem_init 1 (globals N)) = Inr (acquired s)"
      by blast
    with draw assms(4) have "walks_inv N s'"
      by (simp add: s' walks_inv_def)
    moreover from assms(1) Display_loop a have "lock_inv N s'"
      by (simp add: s' lock_inv_def ring_ok_def sem_post_def)
    moreover from assms(2) a have "audio_inv N s'"
      by (simp add: s' audio_inv_def unlocked_simps)
    moreover from snap have "display_inv N s'"
      by (simp add: s' display_inv_def)
    ultimately show ?thesis
      by blast
  qed
qed

lemma step_inv:
  assumes "lock_inv N s \<and> audio_inv N s \<and> display_inv N s \<and> walks_inv N s"
    and "step N m s = Some s'"
  shows "lock_inv N s' \<and> audio_inv N s' \<and> display_inv N s' \<and> walks_inv N s'"
proof (cases m)
  case (Audio_call buffer frames)
  with assms show ?thesis
    using audio_call_inv [of N s buffer frames s'] by simp
next
  case Audio_step
  with assms show ?thesis
    using audio_step_inv [of N s s'] by simp
next
  case (Display_call drawOffset drawScale lineWidth color)
  with assms show ?thesis
    using display_call_inv [of N s drawOffset drawScale lineWidth color s'] by simp
next
  case Display_step
  with assms show ?thesis
    using display_step_inv [of N s s'] by simp
qed

lemma run_inv:
  "lock_inv N s \<and> audio_inv N s \<and> display_inv N s \<and> walks_inv N s \<Longrightarrow>
   run N ms s = Some s' \<Longrightarrow>
   lock_inv N s' \<and> audio_inv N s' \<and> display_inv N s' \<and> walks_inv N s'"
proof (induction ms arbitrary: s)
  case Nil
  then show ?case by simp
next
  case (Cons m ms)
  from Cons.prems(2) obtain s1 where s1: "step N m s = Some s1" "run N ms s1 = Some s'"
    by (auto split: option.splits)
  from step_inv [OF Cons.prems(1) s1(1)] s1(2) show ?case
    by (rule Cons.IH)
qed

text \<open>
  C1: in every state that the two threads reach from the start of the program, under any
  schedule of their statements: at most one thread is inside its function, and the semaphore
  is taken exactly then (so every append and every walk runs wholly while its thread holds
  the semaphore); while the display thread is inside \<^verbatim>\<open>DrawVertexBuffer\<close>, the slots and
  the cursor are what they were when it took the semaphore and no append finishes; the ring it
  found then is the zeroed ring after exactly the appends that had finished before; and every
  finished walk drew what \<^verbatim>\<open>DrawVertexBuffer\<close> run alone draws from one such ring, made
  by a prefix of all the appends.
\<close>

theorem walks_and_appends_exclude_each_other:
  assumes "0 < N" and "N \<le> INT_MAX" and "run N schedule (boot N) = Some s"
  shows "(audio_thread s = Audio_idle \<or> display_thread s = Display_idle)
         \<and> mutex (shared s) =
             (if audio_thread s = Audio_idle \<and> display_thread s = Display_idle then 1 else 0)
         \<and> (display_thread s \<noteq> Display_idle \<longrightarrow>
               vertexBuffer (shared s) = vertexBuffer (acquired s)
               \<and> cursor (shared s) = cursor (acquired s)
               \<and> completed s = seen s
               \<and> append_all N (seen s) (sem_init 1 (globals N)) = Inr (acquired s))
         \<and> (\<forall>w \<in> set (walks s).
               DrawVertexBuffer N (at_offset w) (at_scale w) (at_width w) (at_color w) (snapshot w)
                 = Inr (snapshot w, drawn w)
               \<and> (\<exists>ps qs. completed s = ps @ qs
                     \<and> append_all N ps (sem_init 1 (globals N)) = Inr (snapshot w)))"
proof -
  from run_inv [OF boot_inv [OF assms(1,2)] assms(3)]
  have l: "lock_inv N s" and d: "display_inv N s" and w: "walks_inv N s"
    by simp_all
  from d have "vertexBuffer (shared s) = vertexBuffer (acquired s)
      \<and> cursor (shared s) = cursor (acquired s) \<and> completed s = seen s
      \<and> append_all N (seen s) (sem_init 1 (globals N)) = Inr (acquired s)"
    if "display_thread s \<noteq> Display_idle"
    using that unlocked_simps(1,2) [of "shared s"]
    by (cases "display_thread s") (auto simp: display_inv_def)
  with l w show ?thesis
    unfolding lock_inv_def walks_inv_def by blast
qed


theorem walks_and_appends_exclude_each_other_witness:
  "0 < (2::nat) \<and> 2 \<le> INT_MAX
   \<and> run 2 [Audio_call [float_one, pos_zero] 1, Audio_step, Audio_step, Audio_step,
             Display_call (Vector2 pos_zero pos_zero) float_one LINE_WIDTH WHITE,
             Display_step, Display_step, Display_step] (boot 2)
       = Some \<lparr>shared = \<lparr>vertexBuffer = [Vector2 float_one pos_zero, Vector2 pos_zero pos_zero],
                            cursor = 1, mutex = 1\<rparr>,
                 audio_thread = Audio_idle, display_thread = Display_idle,
                 completed = [Vector2 float_one pos_zero],
                 acquired = \<lparr>vertexBuffer = [Vector2 float_one pos_zero, Vector2 pos_zero pos_zero],
                              cursor = 1, mutex = 1\<rparr>,
                 seen = [Vector2 float_one pos_zero],
                 walks = [\<lparr>at_offset = Vector2 pos_zero pos_zero, at_scale = float_one,
                           at_width = LINE_WIDTH, at_color = WHITE,
                           snapshot = \<lparr>vertexBuffer = [Vector2 float_one pos_zero,
                                                         Vector2 pos_zero pos_zero],
                                       cursor = 1, mutex = 1\<rparr>,
                           drawn = [rlSetLineWidth LINE_WIDTH, rlBegin_RL_LINES,
                                    rlColor4ub 255 255 255 255,
                                    rlVertex2f pos_zero pos_zero, rlVertex2f float_one pos_zero,
                                    rlEnd]\<rparr>]\<rparr>
   \<and> DrawVertexBuffer 2 (Vector2 pos_zero pos_zero) float_one LINE_WIDTH WHITE
         \<lparr>vertexBuffer = [Vector2 float_one pos_zero, Vector2 pos_zero pos_zero],
          cursor = 1, mutex = 1\<rparr>
       = Inr (\<lparr>vertexBuffer = [Vector2 float_one pos_zero, Vector2 pos_zero pos_zero],
               cursor = 1, mutex = 1\<rparr>,
              [rlSetLineWidth LINE_WIDTH, rlBegin_RL_LINES, rlColor4ub 255 255 255 255,
               rlVertex2f pos_zero pos_zero, rlVertex2f float_one pos_zero, rlEnd])
   \<and> run 2 [Audio_call [float_one, pos_zero] 1, Audio_step,
             Display_call (Vector2 pos_zero pos_zero) float_one LINE_WIDTH WHITE] (boot 2) = None"
proof -
  let ?ring = "\<lparr>vertexBuffer = [Vector2 float_one pos_zero, Vector2 pos_zero pos_zero],
                cursor = 1, mutex = 1\<rparr>"
  let ?drawn = "[rlSetLineWidth LINE_WIDTH, rlBegin_RL_LINES, rlColor4ub 255 255 255 255,
                 rlVertex2f pos_zero pos_zero, rlVertex2f float_one pos_zero, rlEnd]"
  let ?s = "\<lparr>shared = ?ring, audio_thread = Audio_idle, display_thread = Display_idle,
             completed = [Vector2 float_one pos_zero], acquired = ?ring,
             seen = [Vector2 float_one pos_zero],
             walks = [\<lparr>at_offset = Vector2 pos_zero pos_zero, at_scale = float_one,
                       at_width = LINE_WIDTH, at_color = WHITE, snapshot = ?ring,
                       drawn = ?drawn\<rparr>]\<rparr>"
  have pos: "0 < (2::nat)"
    by simp
  have small: "2 \<le> INT_MAX"
    by (simp add: INT_MAX_def)
  have r: "run 2 [Audio_call [float_one, pos_zero] 1, Audio_step, Audio_step, Audio_step,
             Display_call (Vector2 pos_zero pos_zero) float_one LINE_WIDTH WHITE,
             Display_step, Display_step, Display_step] (boot 2) = Some ?s"
    by (simp add: boot_def audio_call_def audio_step_def display_call_def display_step_def
        sem_wait_def sem_post_def sem_init_def globals_2 frame_at_def WHITE_def INT_MAX_def
        to_pixel_identity is_binary32_consts consts_not_neg_zero Let_def)
  have blocked: "run 2 [Audio_call [float_one, pos_zero] 1, Audio_step,
             Display_call (Vector2 pos_zero pos_zero) float_one LINE_WIDTH WHITE] (boot 2) = None"
    by (simp add: boot_def audio_call_def audio_step_def display_call_def
        sem_wait_def sem_init_def globals_2 frame_at_def)
  from walks_and_appends_exclude_each_other [OF pos small r]
  have "\<forall>w \<in> set (walks ?s).
          DrawVertexBuffer 2 (at_offset w) (at_scale w) (at_width w) (at_color w) (snapshot w)
            = Inr (snapshot w, drawn w)"
    by blast
  then have "DrawVertexBuffer 2 (Vector2 pos_zero pos_zero) float_one LINE_WIDTH WHITE ?ring
      = Inr (?ring, ?drawn)"
    by simp
  with pos small r blocked show ?thesis
    by blast
qed


end
